theory Spec2Isabelle
  imports Main "HOL-Library.Word" "HOL-Library.Log_Nat"
begin

unbundle bit_operations_syntax

section \<open>Machine words, seeds and hashes\<close>

type_synonym u32 = "32 word"
type_synonym u64 = "64 word"

text \<open>
  \<open>FOC_GET_HASH_SEED\<close> is the 64-bit constant \<open>0xff51afd7ed558ccd\<close>; the constructor
  stores \<open>static_cast<uint32_t>\<close> of it in \<open>_seed\<close>.
\<close>

definition FOC_GET_HASH_SEED :: u64 where
  "FOC_GET_HASH_SEED = 0xff51afd7ed558ccd"

definition default_seed :: u32 where
  "default_seed = ucast FOC_GET_HASH_SEED"

text \<open>\<open>next_seed\<close>: the three xor-shift steps on a \<open>uint32_t\<close>.\<close>

definition next_seed :: "u32 \<Rightarrow> u32" where
  "next_seed seed =
     (let s1 = seed XOR push_bit 13 seed;
          s2 = s1 XOR drop_bit 17 s1;
          s3 = s2 XOR push_bit 5 s2
      in s3)"

text \<open>
  \<open>hash32\<close>: \<open>seed ^ _hasher(key)\<close>, computed at the width of \<open>size_t\<close> and truncated
  to \<open>uint32_t\<close> by the return type. The hasher is a template parameter, passed here as
  the function \<open>hf\<close>.
\<close>

definition hash32 :: "('k \<Rightarrow> u64) \<Rightarrow> 'k \<Rightarrow> u32 \<Rightarrow> u32" where
  "hash32 hf key seed = ucast (ucast seed XOR hf key :: u64)"

text \<open>\<open>(hash >> hash_offset) & 0x1f\<close>, the logical slot at the current level.\<close>

definition hash_slice :: "u32 \<Rightarrow> nat \<Rightarrow> nat" where
  "hash_slice hash hash_offset = unat (drop_bit hash_offset hash AND 0x1f)"

text \<open>
  The step taken before descending into an interior node, written three times in the
  source (in \<open>findNode\<close> and twice in \<open>insertEntry\<close>):
  \<^verbatim>\<open>if (hash_offset < 25) { hash_offset += 5; }
  else { hash_offset = 0; seed = next_seed(seed); hash = hash32(key, seed); }\<close>
  The state is the triple \<open>(seed, hash, hash_offset)\<close>.
\<close>

definition advance :: "('k \<Rightarrow> u64) \<Rightarrow> 'k \<Rightarrow> u32 \<times> u32 \<times> nat \<Rightarrow> u32 \<times> u32 \<times> nat" where
  "advance hf key st =
     (case st of (seed, hash, hash_offset) \<Rightarrow>
        if hash_offset < 25 then (seed, hash, hash_offset + 5)
        else (next_seed seed, hash32 hf key (next_seed seed), 0))"

section \<open>Errors\<close>

text \<open>
  What the C++ leaves undefined, or stops with \<open>assert\<close>, is an error value of the model.
\<close>

datatype error = AssertionFailed | NullDereference | OutOfRange | UninitialisedRead

section \<open>The sizing oracle\<close>

text \<open>The two static tables of \<open>hamt_trie_allocation_size\<close>, \<open>[level][generation]\<close>.\<close>

definition alloc_sizes_by_level :: "nat list list" where
  "alloc_sizes_by_level =
    [[2, 3, 5, 8, 13, 21, 29, 32, 32, 32, 32, 32, 32, 32, 32, 32, 32, 32, 32, 32, 32, 32, 32],
     [1, 1, 1, 1,  1,  2,  3,  5,  8, 13, 21, 29, 32, 32, 32, 32, 32, 32, 32, 32, 32, 32, 32],
     [1, 1, 1, 1,  1,  1,  1,  1,  1,  1,  2,  3,  5,  8, 13, 21, 29, 32, 32, 32, 32, 32, 32],
     [1, 1, 1, 1,  1,  1,  1,  1,  1,  1,  1,  1,  1,  1,  1,  2,  3,  5,  8, 13, 21, 29, 32],
     [1, 1, 1, 1,  1,  1,  1,  1,  1,  1,  1,  1,  1,  1,  1,  1,  1,  1,  1,  1,  1,  1,  1]]"

definition alloc_sizes :: "nat list" where
  "alloc_sizes =
    [1, 1, 2, 3, 5, 5, 8, 8, 8, 13, 13, 13, 13, 13, 21, 21, 21, 21, 21, 21, 21, 21,
     29, 29, 29, 29, 29, 29, 29, 29, 32, 32, 32]"

text \<open>
  \<open>__builtin_clzll\<close>: the number of leading zero bits of a 64-bit value, counted from
  bit 63 downwards (\<open>clz_from n w\<close> looks at the bits below position \<open>n\<close>).
\<close>

fun clz_from :: "nat \<Rightarrow> u64 \<Rightarrow> nat" where
  "clz_from 0 w = 0"
| "clz_from (Suc n) w = (if bit w n then 0 else Suc (clz_from n w))"

definition clzll :: "u64 \<Rightarrow> nat" where
  "clzll w = clz_from 64 w"

text \<open>
  \<open>hamt_trie_allocation_size(required, expected_hamt_size, level)\<close>. The two
  \<open>uint32_t\<close> arguments and the \<open>size_t\<close> argument are natural numbers here; the
  \<open>size_t\<close> is converted to a 64-bit word where the source counts its leading zeros.
\<close>

definition generation_of :: "nat \<Rightarrow> nat" where
  "generation_of expected_hamt_size =
     (if expected_hamt_size - 1 = 0 then 0
      else let generation = 64 - clzll (of_nat (expected_hamt_size - 1))
           in if generation > 22 then 22 else generation)"

definition hamt_trie_allocation_size :: "nat \<Rightarrow> nat \<Rightarrow> nat \<Rightarrow> error + nat" where
  "hamt_trie_allocation_size required expected_hamt_size level =
     (if \<not> (required > 0 \<and> required \<le> 32) then Inl AssertionFailed
      else if \<not> expected_hamt_size > 0 then Inl AssertionFailed
      else
        let (level', generation) =
              (if level > 4 then (4, 0) else (level, generation_of expected_hamt_size));
            guess = alloc_sizes_by_level ! level' ! generation
        in if required > guess then Inr (alloc_sizes ! required) else Inr guess)"

text \<open>
  The spec's words for the generation: \<open>ceil(log2(expected_size))\<close>, the least exponent
  \<open>g\<close> with \<open>expected_size \<le> 2 ^ g\<close>.
\<close>

definition spec_ceil_log2 :: "nat \<Rightarrow> nat" where
  "spec_ceil_log2 n = (LEAST g. n \<le> 2 ^ g)"

text \<open>The capacities that occur in the two tables.\<close>

definition stops :: "nat list" where
  "stops = [1, 2, 3, 5, 8, 13, 21, 29, 32]"

section \<open>Nodes and bitmap tries\<close>

text \<open>
  A \<open>NodeTemplate\<close> is a tagged union: the low bit of \<open>_parent\<close> says whether the union
  holds an \<open>Entry\<close> (a key/value pair) or a \<open>BitmapTrieTemplate\<close> with its three fields
  \<open>_bitmap\<close>, \<open>_capacity\<close> and \<open>_base\<close>. The array \<open>_base\<close> is the list of its cells;
  the empty list is \<open>nullptr\<close> (no array of zero cells is ever allocated). A cell that
  was allocated but never constructed is \<open>Uninit\<close>. The address part of \<open>_parent\<close> is
  written by the operations below but never read by them, and is not represented.
\<close>

datatype ('k, 'v) node =
    Uninit
  | Entry 'k 'v
  | Trie (bitmap: u32) (capacity: nat) (base: "('k, 'v) node list")

text \<open>The cells among the first \<open>n\<close> of an array are smaller than the trie that owns it.\<close>

lemma size_live_cell [termination_simp]:
  "x \<in> set (take n xs) \<Longrightarrow> size x < Suc (size_list size xs)"
proof -
  assume "x \<in> set (take n xs)"
  then have "x \<in> set xs" by (rule in_set_takeD)
  then have "size x \<le> size_list size xs" by (simp add: size_list_estimation')
  then show ?thesis by simp
qed

text \<open>A \<open>Node *\<close> reachable from a trie: the physical indices to follow from its array.\<close>

type_synonym node_ptr = "nat list"

text \<open>\<open>__builtin_popcount\<close> on a \<open>uint32_t\<close>.\<close>

definition popcount :: "u32 \<Rightarrow> nat" where
  "popcount w = length (filter (bit w) [0..<32])"

definition physicalIndex :: "u32 \<Rightarrow> nat \<Rightarrow> nat" where
  "physicalIndex bm logical_index =
     (let bitmask = push_bit logical_index (1 :: u32) in popcount (bm AND (bitmask - 1)))"

definition logicalPositionTaken :: "u32 \<Rightarrow> nat \<Rightarrow> bool" where
  "logicalPositionTaken bm logical_index = (bm AND push_bit logical_index 1 \<noteq> 0)"

subsection \<open>The allocator\<close>

text \<open>
  Modelled from the spec: the allocator (\<open>allocator.h\<close> is not among the sources). Its
  contract is \<open>allocate(bytes, align) -> pointer-or-null\<close> and
  \<open>deallocate(pointer, capacity)\<close>. The allocator's state is the list of the outcomes of
  its next calls (\<open>True\<close>: an array, \<open>False\<close>: null); once the list is used up every call
  succeeds. A fresh array holds unconstructed cells. Deallocation does not change the
  outcome of later calls.
\<close>

type_synonym allocator = "bool list"

definition next_outcome :: "allocator \<Rightarrow> bool \<times> allocator" where
  "next_outcome a = (case a of [] \<Rightarrow> (True, []) | ok # rest \<Rightarrow> (ok, rest))"

definition allocate :: "allocator \<Rightarrow> nat \<Rightarrow> ('k, 'v) node list option \<times> allocator" where
  "allocate a n =
     (case next_outcome a of
        (ok, a') \<Rightarrow> (if ok then Some (replicate n Uninit) else None, a'))"

definition deallocate :: "allocator \<Rightarrow> ('k, 'v) node list \<Rightarrow> nat \<Rightarrow> allocator" where
  "deallocate a ptr cap = a"

subsection \<open>\<open>BitmapTrieTemplate::allocate\<close> and \<open>clear\<close>\<close>

text \<open>
  \<open>allocate\<close> sets \<open>_capacity\<close> and \<open>_bitmap\<close> and stores whatever the allocator returned,
  also when that is null.
\<close>

definition BitmapTrie_allocate :: "allocator \<Rightarrow> nat \<Rightarrow> ('k, 'v) node \<times> allocator" where
  "BitmapTrie_allocate a cap =
     (if cap = 0 then (Trie 0 cap [], a)
      else case allocate a cap of
             (None, a') \<Rightarrow> (Trie 0 cap [], a')
           | (Some cells, a') \<Rightarrow> (Trie 0 cap cells, a'))"

text \<open>
  \<open>deallocateRecursively\<close> hands every array below the trie back to the allocator;
  \<open>clear\<close> then resets the three fields.
\<close>

function deallocateRecursively :: "allocator \<Rightarrow> ('k, 'v) node \<Rightarrow> allocator" where
  "deallocateRecursively a (Trie bm cap b) =
     (let a' = fold (\<lambda>n acc. deallocateRecursively acc n) (take (popcount bm) b) a
      in if b = [] then a' else deallocate a' b cap)"
| "deallocateRecursively a (Entry k v) = a"
| "deallocateRecursively a Uninit = a"
  by pat_completeness auto
termination
proof (relation "measure (\<lambda>(a, n). size n)")
  show "wf (measure (\<lambda>(a :: allocator, n :: ('k, 'v) node). size n))" by simp
next
  fix a :: allocator and bm and cap :: nat and b :: "('k, 'v) node list" and x acc
  assume "x \<in> set (take (popcount bm) b)"
  then have "x \<in> set b" by (rule in_set_takeD)
  then have "size x \<le> size_list size b" by (simp add: size_list_estimation')
  then show "((acc, x), (a, Trie bm cap b)) \<in> measure (\<lambda>(a, n). size n)" by simp
qed

definition BitmapTrie_clear :: "allocator \<Rightarrow> ('k, 'v) node \<Rightarrow> ('k, 'v) node \<times> allocator" where
  "BitmapTrie_clear a t = (Trie 0 0 [], deallocateRecursively a t)"

subsection \<open>\<open>BitmapTrieTemplate::insertEntry\<close>\<close>

text \<open>
  The three loops of \<open>insertEntry\<close>. \<open>move_cells j hi d src dst\<close> is
  \<^verbatim>\<open>for (; j < hi; j++) dst[j] = std::move(src[j - d]);\<close>
  (\<open>d = 0\<close> for the cells below the new one, \<open>d = 1\<close> for those above), and
  \<open>shift_cells j i b\<close> is
  \<^verbatim>\<open>for (; j > i; j--) b[j] = std::move(b[j - 1]);\<close>
  An index outside an array is an error.
\<close>

function move_cells ::
  "nat \<Rightarrow> nat \<Rightarrow> nat \<Rightarrow> ('k, 'v) node list \<Rightarrow> ('k, 'v) node list \<Rightarrow> error + ('k, 'v) node list"
where
  "move_cells j hi d src dst =
     (if j < hi then
        (if j - d \<ge> length src \<or> j \<ge> length dst then Inl OutOfRange
         else move_cells (j + 1) hi d src (dst[j := src ! (j - d)]))
      else Inr dst)"
  by pat_completeness auto
termination
  by (relation "measure (\<lambda>(j, hi, d, src, dst). hi - j)") auto

fun shift_cells :: "nat \<Rightarrow> nat \<Rightarrow> ('k, 'v) node list \<Rightarrow> error + ('k, 'v) node list" where
  "shift_cells j i b =
     (if j > i then
        (if j \<ge> length b then Inl OutOfRange
         else shift_cells (j - 1) i (b[j := b ! (j - 1)]))
      else Inr b)"

declare move_cells.simps [simp del] shift_cells.simps [simp del]

text \<open>
  The end of \<open>insertEntry\<close>: the assertion that the slot is empty, the bitmap update and
  the placement-new of the leaf at \<open>_base[i]\<close>. The result is the pointer (the index
  \<open>i\<close>), the trie and the allocator.
\<close>

definition place_entry ::
  "u32 \<Rightarrow> nat \<Rightarrow> ('k, 'v) node list \<Rightarrow> nat \<Rightarrow> nat \<Rightarrow> 'k \<times> 'v \<Rightarrow> allocator \<Rightarrow>
   error + (nat option \<times> ('k, 'v) node \<times> allocator)"
where
  "place_entry bm cap b logical_index i new_entry a =
     (if bm AND push_bit logical_index 1 \<noteq> 0 then Inl AssertionFailed
      else if b = [] then Inl NullDereference
      else if i \<ge> length b then Inl OutOfRange
      else Inr (Some i,
                Trie (bm OR push_bit logical_index 1) cap
                  (b[i := Entry (fst new_entry) (snd new_entry)]),
                a))"

definition BitmapTrie_insertEntry ::
  "allocator \<Rightarrow> ('k, 'v) node \<Rightarrow> nat \<Rightarrow> 'k \<times> 'v \<Rightarrow> nat \<Rightarrow> nat \<Rightarrow>
   error + (nat option \<times> ('k, 'v) node \<times> allocator)"
where
  "BitmapTrie_insertEntry a t logical_index new_entry expected_hamt_size level =
     (case t of
        Trie bm cap b \<Rightarrow>
          let i = physicalIndex bm logical_index;
              sz = popcount bm;
              required = sz + 1
          in
          if \<not> required \<le> 32 then Inl AssertionFailed
          else if required > cap then
            (case hamt_trie_allocation_size required expected_hamt_size level of
               Inl e \<Rightarrow> Inl e
             | Inr alloc_size \<Rightarrow>
                 (case allocate a alloc_size of
                    (None, a') \<Rightarrow> Inr (None, t, a')
                  | (Some new_base, a') \<Rightarrow>
                      if b = [] then
                        (if i \<noteq> 0 then Inl AssertionFailed
                         else place_entry bm alloc_size new_base logical_index i new_entry a')
                      else
                        (case move_cells 0 i 0 b new_base of
                           Inl e \<Rightarrow> Inl e
                         | Inr nb1 \<Rightarrow>
                             (case move_cells (i + 1) (sz + 1) 1 b nb1 of
                                Inl e \<Rightarrow> Inl e
                              | Inr nb2 \<Rightarrow>
                                  place_entry bm alloc_size nb2 logical_index i new_entry
                                    (deallocate a' b cap)))))
          else
            (case shift_cells sz i b of
               Inl e \<Rightarrow> Inl e
             | Inr b' \<Rightarrow> place_entry bm cap b' logical_index i new_entry a)
      | _ \<Rightarrow> Inl AssertionFailed)"

section \<open>The container\<close>

text \<open>
  \<open>HashArrayMappedTrie\<close>: the members \<open>_count\<close>, \<open>_root\<close>, \<open>_seed\<close> and \<open>_allocator\<close> are
  the fields \<open>h_count\<close>, \<open>h_root\<close>, \<open>h_seed\<close> and \<open>h_allocator\<close>. The hasher is the
  parameter \<open>hf\<close> of the operations; \<open>KeyEqual\<close> is its default \<open>std::equal_to<Key>\<close>,
  the equality of the key type.
\<close>

record ('k, 'v) hamt =
  h_count :: nat
  h_root :: "('k, 'v) node"
  h_seed :: u32
  h_allocator :: allocator

definition size_hamt :: "('k, 'v) hamt \<Rightarrow> nat" where
  "size_hamt h = h_count h"

definition empty_hamt :: "('k, 'v) hamt \<Rightarrow> bool" where
  "empty_hamt h = (h_count h = 0)"

subsection \<open>Construction, \<open>clear\<close>\<close>

text \<open>
  The constructor \<open>HashArrayMappedTrie(n, hf, eql, a)\<close>; the default constructor is
  \<open>HashArrayMappedTrie(1)\<close> and the one taking only an allocator passes \<open>n = 0\<close>.
\<close>

definition HashArrayMappedTrie :: "nat \<Rightarrow> allocator \<Rightarrow> error + ('k, 'v) hamt" where
  "HashArrayMappedTrie n a =
     (case hamt_trie_allocation_size 1 (if n > 0 then n else 1) 0 of
        Inl e \<Rightarrow> Inl e
      | Inr alloc_size \<Rightarrow>
          if \<not> alloc_size \<ge> 1 then Inl AssertionFailed
          else case BitmapTrie_allocate a alloc_size of
                 (t, a') \<Rightarrow> Inr \<lparr>h_count = 0, h_root = t, h_seed = default_seed, h_allocator = a'\<rparr>)"

definition clear :: "('k, 'v) hamt \<Rightarrow> ('k, 'v) hamt" where
  "clear h =
     (case BitmapTrie_clear (h_allocator h) (h_root h) of
        (t, a') \<Rightarrow> h\<lparr>h_count := 0, h_root := t, h_allocator := a'\<rparr>)"

text \<open>
  The copy constructor and the copy assignment are not embedded, because neither can be
  instantiated. The constructor \<open>HashArrayMappedTrie(const HashArrayMappedTrie &, const
  allocator_type &)\<close>, to which the copy constructor delegates, initialises only
  \<open>_allocator\<close>, and the member \<open>_root\<close> is a \<open>Node\<close>, which has no default
  constructor. The copy assignment assigns the \<open>const Node\<close> \<open>other._root\<close>, for which
  \<open>Node\<close> has only move assignments, and calls \<open>cloneRecursively\<close> on \<open>_root\<close>, a
  member of the bitmap trie and not of \<open>Node\<close>; \<open>cloneRecursively\<close> itself pushes two
  arguments on a \<open>std::stack\<close> and calls \<open>Node::BitmapTrie\<close> with no argument.
\<close>

subsection \<open>Lookup\<close>

text \<open>
  The loop of \<open>findNode\<close>, started at a trie node with the current seed, hash and hash
  offset. The result is the node found: its pointer and the entry it holds.
\<close>

function findNode_from ::
  "('k \<Rightarrow> u64) \<Rightarrow> 'k \<Rightarrow> ('k, 'v) node \<Rightarrow> u32 \<Rightarrow> u32 \<Rightarrow> nat \<Rightarrow>
   error + (node_ptr \<times> 'k \<times> 'v) option"
where
  "findNode_from hf key (Trie bm cap b) seed hash hash_offset =
     (let t = hash_slice hash hash_offset in
      if \<not> logicalPositionTaken bm t then Inr None
      else
        let i = physicalIndex bm t in
        if b = [] then Inl NullDereference
        else if i \<ge> length b then Inl OutOfRange
        else
          (case b ! i of
             Uninit \<Rightarrow> Inl UninitialisedRead
           | Entry k v \<Rightarrow> if k = key then Inr (Some ([i], k, v)) else Inr None
           | Trie bm' cap' b' \<Rightarrow>
               (case advance hf key (seed, hash, hash_offset) of
                  (seed', hash', hash_offset') \<Rightarrow>
                    (case findNode_from hf key (b ! i) seed' hash' hash_offset' of
                       Inl e \<Rightarrow> Inl e
                     | Inr None \<Rightarrow> Inr None
                     | Inr (Some (p, e)) \<Rightarrow> Inr (Some (i # p, e))))))"
| "findNode_from hf key (Entry k v) seed hash hash_offset = Inl AssertionFailed"
| "findNode_from hf key Uninit seed hash hash_offset = Inl UninitialisedRead"
  by pat_completeness auto
termination
proof (relation "measure (\<lambda>(hf, key, n, seed, hash, hash_offset). size n)")
  show "wf (measure (\<lambda>(hf :: 'k \<Rightarrow> u64, key :: 'k, n :: ('k, 'v) node, seed :: u32,
                        hash :: u32, hash_offset :: nat). size n))"
    by simp
next
  fix hf :: "'k \<Rightarrow> u64" and key :: 'k and bm :: u32 and cap :: nat
    and b :: "('k, 'v) node list" and seed hash :: u32 and hash_offset :: nat
    and t i x y xa ya
  assume "i = physicalIndex bm t" and "\<not> length b \<le> i"
  then have "b ! i \<in> set b" by simp
  then have "size (b ! i) \<le> size_list size b" by (simp add: size_list_estimation')
  then show "((hf, key, b ! i, xa, x, ya), (hf, key, Trie bm cap b, seed, hash, hash_offset))
      \<in> measure (\<lambda>(hf, key, n, seed, hash, hash_offset). size n)"
    by simp
qed

definition findNode :: "('k \<Rightarrow> u64) \<Rightarrow> ('k, 'v) hamt \<Rightarrow> 'k \<Rightarrow> error + (node_ptr \<times> 'k \<times> 'v) option" where
  "findNode hf h key = findNode_from hf key (h_root h) (h_seed h) (hash32 hf key (h_seed h)) 0"

text \<open>\<open>find\<close>: the value the returned pointer refers to, or \<open>None\<close> for null.\<close>

definition find_hamt :: "('k \<Rightarrow> u64) \<Rightarrow> ('k, 'v) hamt \<Rightarrow> 'k \<Rightarrow> error + 'v option" where
  "find_hamt hf h key =
     (case findNode hf h key of
        Inl e \<Rightarrow> Inl e
      | Inr None \<Rightarrow> Inr None
      | Inr (Some (p, k, v)) \<Rightarrow> Inr (Some v))"

subsection \<open>Insertion\<close>

text \<open>
  The member function \<open>insertEntry\<close>. It reads \<open>_count\<close> and uses \<open>_allocator\<close>, which
  are the arguments \<open>cnt\<close> and \<open>a\<close>; the node behind \<open>trie_node\<close> is passed and returned
  by value, and the result pointer is relative to it. The recursion need not end, so
  the result is an option: \<open>None\<close> when the call does not return.

  Before it descends or splits, the source advances the hash state with the step
  \<open>advance\<close>; when it splits, it also computes \<open>old_entry_hash\<close> under the seed then in
  effect and, only in the branch that reseeds, returns null if the two hashes are equal.
\<close>

partial_function (option) insertEntry ::
  "('k \<Rightarrow> u64) \<Rightarrow> nat \<Rightarrow> allocator \<Rightarrow> ('k, 'v) node \<Rightarrow> 'k \<times> 'v \<Rightarrow> u32 \<Rightarrow> u32 \<Rightarrow> nat \<Rightarrow> nat \<Rightarrow>
   (error + (node_ptr option \<times> ('k, 'v) node \<times> allocator)) option"
where
  "insertEntry hf cnt a trie_node new_entry seed hash hash_offset level =
     (case trie_node of
        Trie bm cap b \<Rightarrow>
          let slot = hash_slice hash hash_offset in
          if \<not> logicalPositionTaken bm slot then
            Some (case BitmapTrie_insertEntry a trie_node slot new_entry (cnt + 1) level of
                    Inl e \<Rightarrow> Inl e
                  | Inr (None, t', a') \<Rightarrow> Inr (None, t', a')
                  | Inr (Some i, t', a') \<Rightarrow> Inr (Some [i], t', a'))
          else
            let i = physicalIndex bm slot in
            if b = [] then Some (Inl NullDereference)
            else if i \<ge> length b then Some (Inl OutOfRange)
            else
              (case b ! i of
                 Uninit \<Rightarrow> Some (Inl UninitialisedRead)
               | Trie bm' cap' b' \<Rightarrow>
                   (case advance hf (fst new_entry) (seed, hash, hash_offset) of
                      (seed', hash', hash_offset') \<Rightarrow>
                        Option.bind
                          (insertEntry hf cnt a (b ! i) new_entry seed' hash' hash_offset'
                             (level + 1))
                          (\<lambda>r. case r of
                             Inl e \<Rightarrow> Some (Inl e)
                           | Inr (None, n', a') \<Rightarrow>
                               Some (Inr (None, Trie bm cap (b[i := n']), a'))
                           | Inr (Some p, n', a') \<Rightarrow>
                               Some (Inr (Some (i # p), Trie bm cap (b[i := n']), a'))))
               | Entry old_key old_value \<Rightarrow>
                   if old_key = fst new_entry then
                     Some (Inr (Some [i],
                                Trie bm cap (b[i := Entry old_key (snd new_entry)]), a))
                   else
                     (case advance hf (fst new_entry) (seed, hash, hash_offset) of
                        (seed', hash', hash_offset') \<Rightarrow>
                          let old_entry_hash = hash32 hf old_key seed' in
                          if \<not> hash_offset < 25 \<and> hash' = old_entry_hash then
                            Some (Inr (None, trie_node, a))
                          else
                            (case BitmapTrie_allocate a 2 of
                               (new_trie, a1) \<Rightarrow>
                                 Option.bind
                                   (insertEntry hf cnt a1 new_trie (old_key, old_value) seed'
                                      old_entry_hash hash_offset' (level + 1))
                                   (\<lambda>r1. case r1 of
                                      Inl e \<Rightarrow> Some (Inl e)
                                    | Inr (None, t1, a2) \<Rightarrow>
                                        Some (Inr (None,
                                                   Trie bm cap (b[i := Entry old_key old_value]),
                                                   a2))
                                    | Inr (Some replaced_node, t1, a2) \<Rightarrow>
                                        Option.bind
                                          (insertEntry hf cnt a2 t1 new_entry seed' hash'
                                             hash_offset' (level + 1))
                                          (\<lambda>r2. case r2 of
                                             Inl e \<Rightarrow> Some (Inl e)
                                           | Inr (None, t2, a3) \<Rightarrow>
                                               Some (Inr (None, Trie bm cap (b[i := t2]), a3))
                                           | Inr (Some p, t2, a3) \<Rightarrow>
                                               Some (Inr (Some (i # p),
                                                          Trie bm cap (b[i := t2]), a3)))))))
      | Entry k v \<Rightarrow> Some (Inl AssertionFailed)
      | Uninit \<Rightarrow> Some (Inl UninitialisedRead))"

declare insertEntry.simps [code]

subsection \<open>Iterators\<close>

text \<open>
  \<open>HAMTConstForwardIterator\<close> holds the node pointer \<open>_node\<close>, null for the iterator
  that a failed \<open>insert\<close> returns.
\<close>

datatype HAMTConstForwardIterator = Iterator (node_of: "node_ptr option")

definition nextEntryNode :: "node_ptr \<Rightarrow> node_ptr" where
  "nextEntryNode this = this"

text \<open>\<open>operator++\<close>: \<open>_node = _node->nextEntryNode(); return *this;\<close>\<close>

definition increment :: "HAMTConstForwardIterator \<Rightarrow> error + HAMTConstForwardIterator" where
  "increment it =
     (case node_of it of
        None \<Rightarrow> Inl NullDereference
      | Some n \<Rightarrow> Inr (Iterator (Some (nextEntryNode n))))"

subsection \<open>\<open>insert\<close>\<close>

text \<open>
  \<open>insert\<close>: \<open>_count\<close> is incremented whenever \<open>insertEntry\<close> returns a node. The result
  is the returned iterator and the container afterwards.
\<close>

definition insert_hamt ::
  "('k \<Rightarrow> u64) \<Rightarrow> ('k, 'v) hamt \<Rightarrow> 'k \<times> 'v \<Rightarrow>
   (error + (HAMTConstForwardIterator \<times> ('k, 'v) hamt)) option"
where
  "insert_hamt hf h entry =
     (let hash = hash32 hf (fst entry) (h_seed h) in
      case insertEntry hf (h_count h) (h_allocator h) (h_root h) entry (h_seed h) hash 0 0 of
        None \<Rightarrow> None
      | Some (Inl e) \<Rightarrow> Some (Inl e)
      | Some (Inr (None, t, a)) \<Rightarrow>
          Some (Inr (Iterator None, h\<lparr>h_root := t, h_allocator := a\<rparr>))
      | Some (Inr (Some node, t, a)) \<Rightarrow>
          Some (Inr (Iterator (Some node),
                     h\<lparr>h_count := h_count h + 1, h_root := t, h_allocator := a\<rparr>)))"

text \<open>A sequence of insertions, one after the other, whatever each of them returns.\<close>

fun insert_all ::
  "('k \<Rightarrow> u64) \<Rightarrow> ('k, 'v) hamt \<Rightarrow> ('k \<times> 'v) list \<Rightarrow> (error + ('k, 'v) hamt) option"
where
  "insert_all hf h [] = Some (Inr h)"
| "insert_all hf h (e # es) =
     (case insert_hamt hf h e of
        None \<Rightarrow> None
      | Some (Inl err) \<Rightarrow> Some (Inl err)
      | Some (Inr (it, h')) \<Rightarrow> insert_all hf h' es)"

section \<open>Notions used by the properties\<close>

text \<open>The hash state after \<open>n\<close> descents from the root.\<close>

definition schedule :: "('k \<Rightarrow> u64) \<Rightarrow> 'k \<Rightarrow> u32 \<Rightarrow> nat \<Rightarrow> u32 \<times> u32 \<times> nat" where
  "schedule hf key seed n = (advance hf key ^^ n) (seed, hash32 hf key seed, 0)"

text \<open>
  The leaves reachable from a node, as the tests count them: through the first
  \<open>size()\<close> cells of every trie.
\<close>

fun leaf_count :: "('k, 'v) node \<Rightarrow> nat" where
  "leaf_count (Entry k v) = 1"
| "leaf_count Uninit = 0"
| "leaf_count (Trie bm cap b) = sum_list (map leaf_count (take (popcount bm) b))"

text \<open>
  The data model of a bitmap trie: \<open>_base\<close> is an array of \<open>_capacity\<close> cells (null when
  the capacity is 0), the population fits, and the live cells are constructed nodes that
  are well formed themselves.
\<close>

fun wf_node :: "('k, 'v) node \<Rightarrow> bool" where
  "wf_node (Entry k v) = True"
| "wf_node Uninit = False"
| "wf_node (Trie bm cap b) =
     (length b = cap \<and> popcount bm \<le> cap \<and> list_all wf_node (take (popcount bm) b))"

definition wf_trie :: "('k, 'v) node \<Rightarrow> bool" where
  "wf_trie t = (wf_node t \<and> (case t of Trie bm cap b \<Rightarrow> True | _ \<Rightarrow> False))"

text \<open>
  Structural identity of two nodes: the same bitmaps, and the same children in the same
  order, over the live cells. Capacities and dead cells are not compared.
\<close>

fun same_structure :: "('k, 'v) node \<Rightarrow> ('k, 'v) node \<Rightarrow> bool" where
  "same_structure (Entry k v) n = (n = Entry k v)"
| "same_structure Uninit n = (n = Uninit)"
| "same_structure (Trie bm cap b) n =
     (case n of
        Trie bm' cap' b' \<Rightarrow>
          bm' = bm \<and> list_all2 same_structure (take (popcount bm) b) (take (popcount bm) b')
      | _ \<Rightarrow> False)"

text \<open>An allocator that returns an array at every call.\<close>

definition never_fails :: "allocator \<Rightarrow> bool" where
  "never_fails a = list_all (\<lambda>ok. ok) a"

text \<open>The hash functors of the test helpers, on \<open>int64_t\<close> keys.\<close>

definition IdentityFunction :: "u64 \<Rightarrow> u64" where
  "IdentityFunction key = key"

definition ConstantFunction :: "u64 \<Rightarrow> u64" where
  "ConstantFunction key = 0x383f9f3a3b3c3d3f"

text \<open>The default-constructed container, \<open>HashArrayMappedTrie(1)\<close>, after its allocation.\<close>

definition new_hamt :: "(u64, int) hamt" where
  "new_hamt = \<lparr>h_count = 0, h_root = Trie 0 2 [Uninit, Uninit], h_seed = default_seed,
               h_allocator = []\<rparr>"

section \<open>The sizing oracle: generation and capacity\<close>

lemma clz_from_le: "clz_from n w \<le> n"
  by (induction n) auto

lemma clz_from_upper: "take_bit n (unat w) < 2 ^ (n - clz_from n w)"
proof (induction n)
  case 0
  show ?case by simp
next
  case (Suc n)
  have lt: "take_bit n (unat w) < 2 ^ n" by simp
  show ?case
  proof (cases "bit w n")
    case True
    then have "bit (unat w) n" by (simp add: bit_unsigned_iff)
    then have "take_bit (Suc n) (unat w) = 2 ^ n + take_bit n (unat w)"
      by (simp add: take_bit_Suc_from_most)
    with lt True show ?thesis by simp
  next
    case False
    then have "\<not> bit (unat w) n" by (simp add: bit_unsigned_iff)
    then have "take_bit (Suc n) (unat w) = take_bit n (unat w)"
      by (simp add: take_bit_Suc_from_most)
    with Suc False show ?thesis by simp
  qed
qed

lemma clz_from_lower:
  "clz_from n w < n \<Longrightarrow> 2 ^ (n - clz_from n w - 1) \<le> take_bit n (unat w)"
proof (induction n)
  case 0
  then show ?case by simp
next
  case (Suc n)
  show ?case
  proof (cases "bit w n")
    case True
    then have "bit (unat w) n" by (simp add: bit_unsigned_iff)
    then have "take_bit (Suc n) (unat w) = 2 ^ n + take_bit n (unat w)"
      by (simp add: take_bit_Suc_from_most)
    with True show ?thesis by simp
  next
    case False
    then have "\<not> bit (unat w) n" by (simp add: bit_unsigned_iff)
    then have eq: "take_bit (Suc n) (unat w) = take_bit n (unat w)"
      by (simp add: take_bit_Suc_from_most)
    from False Suc.prems have "clz_from n w < n" by simp
    from Suc.IH [OF this] eq False show ?thesis by simp
  qed
qed

lemma clz_from_zero: "take_bit n (unat w) \<noteq> 0 \<Longrightarrow> clz_from n w < n"
proof (induction n)
  case 0
  then show ?case by simp
next
  case (Suc n)
  show ?case
  proof (cases "bit w n")
    case True
    then show ?thesis by simp
  next
    case False
    then have "\<not> bit (unat w) n" by (simp add: bit_unsigned_iff)
    then have eq: "take_bit (Suc n) (unat w) = take_bit n (unat w)"
      by (simp add: take_bit_Suc_from_most)
    with Suc False show ?thesis by simp
  qed
qed

lemma generation_bits:
  assumes "2 \<le> e" "e \<le> 2 ^ 64"
  defines "g \<equiv> 64 - clzll (of_nat (e - 1))"
  shows "e \<le> 2 ^ g" and "0 < g" and "2 ^ (g - 1) < e"
proof -
  let ?w = "of_nat (e - 1) :: u64"
  from assms have "e - 1 < 2 ^ 64" by simp
  then have u: "unat ?w = e - 1"
    by (simp add: unat_of_nat)
  have tb: "take_bit 64 (unat ?w) = e - 1"
    using u \<open>e - 1 < 2 ^ 64\<close> by (simp add: take_bit_nat_eq_self)
  from clz_from_upper [of 64 ?w] tb have "e - 1 < 2 ^ g"
    by (simp add: g_def clzll_def)
  then show "e \<le> 2 ^ g" by simp
  from tb assms(1) have "take_bit 64 (unat ?w) \<noteq> 0" by simp
  then have lt: "clz_from 64 ?w < 64" by (rule clz_from_zero)
  then show "0 < g" by (simp add: g_def clzll_def)
  from clz_from_lower [OF lt] tb have "2 ^ (g - 1) \<le> e - 1"
    by (simp add: g_def clzll_def)
  with assms(1) show "2 ^ (g - 1) < e" by simp
qed

lemma spec_ceil_log2_eqI:
  assumes "n \<le> 2 ^ g" and "\<And>k. k < g \<Longrightarrow> \<not> n \<le> 2 ^ k"
  shows "spec_ceil_log2 n = g"
  unfolding spec_ceil_log2_def
proof (rule Least_equality)
  show "n \<le> 2 ^ g" by fact
next
  fix y assume "n \<le> 2 ^ y"
  with assms(2) [of y] show "g \<le> y" by (cases "y < g") auto
qed

lemma generation_raw_eq:
  assumes "2 \<le> e" "e \<le> 2 ^ 64"
  shows "64 - clzll (of_nat (e - 1)) = spec_ceil_log2 e"
proof -
  let ?g = "64 - clzll (of_nat (e - 1))"
  note b = generation_bits [OF assms]
  have "spec_ceil_log2 e = ?g"
  proof (rule spec_ceil_log2_eqI)
    show "e \<le> 2 ^ ?g" by (rule b(1))
  next
    fix k assume "k < ?g"
    then have "k \<le> ?g - 1" by simp
    then have "(2::nat) ^ k \<le> 2 ^ (?g - 1)" by (rule power_increasing) simp
    with b(3) show "\<not> e \<le> 2 ^ k" by linarith
  qed
  then show ?thesis by simp
qed

lemma generation_of_eq:
  assumes "1 \<le> e" "e \<le> 2 ^ 64"
  shows "generation_of e = min 22 (spec_ceil_log2 e)"
proof (cases "e = 1")
  case True
  have "spec_ceil_log2 1 = 0"
    by (rule spec_ceil_log2_eqI) simp_all
  with True show ?thesis by (simp add: generation_of_def)
next
  case False
  with assms have "2 \<le> e" by simp
  from generation_raw_eq [OF this assms(2)] \<open>2 \<le> e\<close> show ?thesis
    by (auto simp: generation_of_def Let_def min_def)
qed


lemma by_level_table:
  "list_all (\<lambda>l. list_all (\<lambda>g. alloc_sizes_by_level ! l ! g \<in> set stops) [0..<23]) [0..<5]"
  by code_simp

lemma by_level_stop:
  "l < 5 \<Longrightarrow> g < 23 \<Longrightarrow> alloc_sizes_by_level ! l ! g \<in> set stops"
  using by_level_table by (simp add: list_all_iff)

lemma by_level_row4:
  "list_all (\<lambda>g. alloc_sizes_by_level ! 4 ! g = 1) [0..<23]"
  by code_simp

lemma by_level_deep: "g < 23 \<Longrightarrow> alloc_sizes_by_level ! 4 ! g = 1"
  using by_level_row4 by (simp add: list_all_iff)

lemma by_required_table:
  "list_all (\<lambda>r. r \<le> alloc_sizes ! r \<and> alloc_sizes ! r \<le> 32 \<and>
      list_all (\<lambda>s. r \<le> s \<longrightarrow> alloc_sizes ! r \<le> s) stops) [1..<33]"
  by code_simp

lemma by_required_bounds:
  assumes "1 \<le> r" "r \<le> 32"
  shows "r \<le> alloc_sizes ! r" and "alloc_sizes ! r \<le> 32"
    and "s \<in> set stops \<Longrightarrow> r \<le> s \<Longrightarrow> alloc_sizes ! r \<le> s"
  using by_required_table assms by (auto simp: list_all_iff)

lemma stops_le_32: "s \<in> set stops \<Longrightarrow> s \<le> 32"
  by (auto simp: stops_def)

lemma guess_cases:
  assumes "1 \<le> r" "r \<le> 32" "s \<in> set stops"
  shows "(if r > s then alloc_sizes ! r else s) = max (alloc_sizes ! r) s"
    and "r \<le> (if r > s then alloc_sizes ! r else s)"
    and "(if r > s then alloc_sizes ! r else s) \<le> 32"
  using by_required_bounds [OF assms(1,2)] assms(3) stops_le_32 [OF assms(3)]
  by (auto simp: max_def)

lemma oracle_unfold:
  assumes "1 \<le> required" "required \<le> 32" "1 \<le> expected_size"
  shows "hamt_trie_allocation_size required expected_size level =
     Inr (if required >
            alloc_sizes_by_level ! (if level > 4 then 4 else level) !
              (if level > 4 then 0 else generation_of expected_size)
          then alloc_sizes ! required
          else alloc_sizes_by_level ! (if level > 4 then 4 else level) !
              (if level > 4 then 0 else generation_of expected_size))"
  using assms by (simp add: hamt_trie_allocation_size_def)

text \<open>
  Claim C8. For \<open>required\<close> in 1..32, \<open>expected_size \<ge> 1\<close> (a \<open>size_t\<close>) and any
  \<open>level\<close>, the sizing oracle returns
  \<open>max(by_required[required], per_level[min(level, 4)][generation])\<close> with
  \<open>generation = min(22, ceil(log2(expected_size)))\<close>, and the capacity returned lies in
  \<open>[required, 32]\<close>. (For levels above 4 the source reads row 4 at generation 0; that row
  is all ones, so the value is the one the formula gives.)
\<close>

theorem sizing_oracle:
  assumes "1 \<le> required" "required \<le> 32" "1 \<le> expected_size" "expected_size < 2 ^ 64"
  shows "\<exists>c. hamt_trie_allocation_size required expected_size level = Inr c \<and>
           c = max (alloc_sizes ! required)
                   (alloc_sizes_by_level ! (min level 4) ! (min 22 (spec_ceil_log2 expected_size))) \<and>
           required \<le> c \<and> c \<le> 32"
proof -
  define g where "g = min 22 (spec_ceil_log2 expected_size)"
  define s where "s = alloc_sizes_by_level ! (min level 4) ! g"
  from assms(4) have le: "expected_size \<le> 2 ^ 64" by simp
  have gen: "generation_of expected_size = g"
    unfolding g_def using assms(3) le by (rule generation_of_eq)
  have glt: "g < 23" by (simp add: g_def)
  have guess: "alloc_sizes_by_level ! (if level > 4 then 4 else level) !
              (if level > 4 then 0 else generation_of expected_size) = s"
  proof (cases "level > 4")
    case True
    then have "min level 4 = 4" by simp
    with True by_level_deep [of 0] by_level_deep [OF glt] show ?thesis
      by (simp add: s_def)
  next
    case False
    then have "min level 4 = level" by simp
    with False gen show ?thesis by (simp add: s_def)
  qed
  have "min level 4 < 5" by simp
  then have st: "s \<in> set stops"
    unfolding s_def using glt by (rule by_level_stop)
  have "hamt_trie_allocation_size required expected_size level =
          Inr (if required > s then alloc_sizes ! required else s)"
    unfolding oracle_unfold [OF assms(1,2,3)] guess ..
  with guess_cases [OF assms(1,2) st] show ?thesis
    unfolding s_def g_def by simp
qed

theorem sizing_oracle_witness:
  "(1::nat) \<le> 3 \<and> (3::nat) \<le> 32 \<and> (1::nat) \<le> 9 \<and> (9::nat) < 2 ^ 64 \<and>
   (\<exists>c. hamt_trie_allocation_size 3 9 0 = Inr c \<and>
           c = max (alloc_sizes ! 3) (alloc_sizes_by_level ! (min 0 4) ! (min 22 (spec_ceil_log2 9))) \<and>
           3 \<le> c \<and> c \<le> 32) \<and>
   hamt_trie_allocation_size 3 9 0 = Inr 13"
proof -
  have a: "(1::nat) \<le> 3" "(3::nat) \<le> 32" "(1::nat) \<le> 9" "(9::nat) < 2 ^ 64" by simp_all
  have v: "hamt_trie_allocation_size 3 9 0 = Inr 13" by code_simp
  from sizing_oracle [OF a, of 0] v show ?thesis by simp
qed

section \<open>The hash schedule\<close>

lemma hash32_xor: "hash32 hf key s0 = s0 XOR ucast (hf key)"
  unfolding hash32_def by (rule bit_word_eqI) (auto simp: bit_simps)

lemma schedule_Suc: "schedule hf key seed (Suc n) = advance hf key (schedule hf key seed n)"
  by (simp add: schedule_def)

lemma schedule_closed_form:
  "schedule hf key seed n =
     ((next_seed ^^ (n div 6)) seed, hash32 hf key ((next_seed ^^ (n div 6)) seed), 5 * (n mod 6))"
proof (induction n)
  case 0
  show ?case by (simp add: schedule_def)
next
  case (Suc n)
  have m: "n mod 6 < 6" by simp
  show ?case
  proof (cases "n mod 6 < 5")
    case True
    then have "Suc n mod 6 = Suc (n mod 6)" "Suc n div 6 = n div 6"
      by (simp_all add: mod_Suc div_Suc)
    with True Suc show ?thesis by (simp add: schedule_Suc advance_def)
  next
    case False
    with m have e: "n mod 6 = 5" by simp
    then have "Suc n mod 6 = 0" "Suc n div 6 = Suc (n div 6)"
      by (simp_all add: mod_Suc div_Suc)
    with e Suc show ?thesis by (simp add: schedule_Suc advance_def)
  qed
qed

text \<open>
  Claim C3, as stated, has the schedule reseed when \<open>hash_offset\<close> has reached 30, after a
  seventh slice at offset 30. In the source the guard is \<open>hash_offset < 25\<close>: with the
  default seed and the identity hasher, the fifth descent for key 0 reaches offset 25 and
  the sixth already reseeds and returns to offset 0.
\<close>

theorem reseed_at_30_counterexample:
  "schedule IdentityFunction 0 default_seed 5 =
     (default_seed, hash32 IdentityFunction 0 default_seed, 25) \<and>
   schedule IdentityFunction 0 default_seed 6 =
     (next_seed default_seed, hash32 IdentityFunction 0 (next_seed default_seed), 0) \<and>
   next_seed default_seed \<noteq> default_seed"
  by code_simp

text \<open>
  Claim C3, amended. The step taken before every descent past an interior node, in
  \<open>findNode\<close> and in \<open>insertEntry\<close>, adds 5 to \<open>hash_offset\<close> while it is below 25; at 25
  it reseeds: the offset returns to 0, the seed becomes \<open>next_seed seed\<close> (the three
  xor-shifts by 13, 17 and 5) and the hash is recomputed as the new seed XOR the low 32
  bits of the hasher's value. So after \<open>n\<close> descents the seed has been renewed
  \<open>n div 6\<close> times and the offset is \<open>5 * (n mod 6)\<close>: the slices are read at offsets
  0, 5, 10, 15, 20, 25 under each seed.
\<close>

theorem hash_schedule:
  "advance hf key (seed, hash, hash_offset) =
     (if hash_offset < 25 then (seed, hash, hash_offset + 5)
      else (next_seed seed, hash32 hf key (next_seed seed), 0)) \<and>
   next_seed seed =
     (let s1 = seed XOR push_bit 13 seed; s2 = s1 XOR drop_bit 17 s1 in s2 XOR push_bit 5 s2) \<and>
   hash32 hf key seed = seed XOR ucast (hf key) \<and>
   schedule hf key seed 0 = (seed, hash32 hf key seed, 0) \<and>
   schedule hf key seed (Suc n) = advance hf key (schedule hf key seed n) \<and>
   schedule hf key seed n =
     ((next_seed ^^ (n div 6)) seed, hash32 hf key ((next_seed ^^ (n div 6)) seed),
      5 * (n mod 6))"
proof (intro conjI)
  show "advance hf key (seed, hash, hash_offset) =
     (if hash_offset < 25 then (seed, hash, hash_offset + 5)
      else (next_seed seed, hash32 hf key (next_seed seed), 0))"
    by (simp add: advance_def)
  show "next_seed seed =
     (let s1 = seed XOR push_bit 13 seed; s2 = s1 XOR drop_bit 17 s1 in s2 XOR push_bit 5 s2)"
    by (simp only: next_seed_def Let_def)
  show "hash32 hf key seed = seed XOR ucast (hf key)"
    by (rule hash32_xor)
  show "schedule hf key seed 0 = (seed, hash32 hf key seed, 0)"
    by (simp add: schedule_def)
  show "schedule hf key seed (Suc n) = advance hf key (schedule hf key seed n)"
    by (rule schedule_Suc)
  show "schedule hf key seed n =
     ((next_seed ^^ (n div 6)) seed, hash32 hf key ((next_seed ^^ (n div 6)) seed),
      5 * (n mod 6))"
    by (rule schedule_closed_form)
qed

section \<open>Iterators\<close>

text \<open>
  Claim C10. For every iterator that holds a node (such as the one a successful \<open>insert\<close>
  returns), \<open>operator++\<close> yields an iterator equal to the original: \<open>nextEntryNode\<close>
  returns the node itself.
\<close>

theorem increment_is_identity:
  "node_of it = Some n \<Longrightarrow> increment it = Inr it"
  by (cases it) (simp add: increment_def nextEntryNode_def)

theorem increment_is_identity_witness:
  "insert_hamt IdentityFunction new_hamt (7, 1) =
     Some (Inr (Iterator (Some [0]),
       \<lparr>h_count = 1, h_root = Trie 1024 2 [Entry 7 1, Uninit], h_seed = default_seed,
        h_allocator = []\<rparr>)) \<and>
   node_of (Iterator (Some [0])) = Some [0] \<and>
   increment (Iterator (Some [0])) = Inr (Iterator (Some [0]))"
proof -
  have i: "insert_hamt IdentityFunction new_hamt (7, 1) =
     Some (Inr (Iterator (Some [0]),
       \<lparr>h_count = 1, h_root = Trie 1024 2 [Entry 7 1, Uninit], h_seed = default_seed,
        h_allocator = []\<rparr>))"
    by code_simp
  have n: "node_of (Iterator (Some [0])) = Some [0]" by simp
  from i n increment_is_identity [OF n] show ?thesis by simp
qed

section \<open>Construction\<close>

lemma new_hamt_constructed: "HashArrayMappedTrie 1 [] = Inr new_hamt"
  by code_simp

section \<open>Bitmaps\<close>

lemma physicalIndex_mask: "physicalIndex bm n = popcount (bm AND mask n)"
  by (simp add: physicalIndex_def Let_def push_bit_of_1 mask_eq_exp_minus_1)

lemma taken_iff_bit: "logicalPositionTaken bm n \<longleftrightarrow> bit bm n"
  by (simp add: logicalPositionTaken_def push_bit_of_1 and_exp_eq_0_iff_not_bit)

lemma popcount_filter: "popcount w = length (filter (bit w) [0..<32])"
  by (simp add: popcount_def)

lemma physicalIndex_filter:
  assumes "n \<le> 32"
  shows "physicalIndex bm n = length (filter (bit bm) [0..<n])"
proof -
  have "[0..<32] = [0..<n] @ [n..<32]"
    using assms by (metis le0 upt_add_eq_append le_add_diff_inverse)
  moreover have "filter (bit (bm AND mask n)) [0..<n] = filter (bit bm) [0..<n]"
    by (rule filter_cong) (auto simp: bit_and_iff bit_mask_iff dest: bit_imp_le_length)
  moreover have "filter (bit (bm AND mask n)) [n..<32] = []"
    by (auto simp: filter_empty_conv bit_and_iff bit_mask_iff)
  ultimately show ?thesis
    by (simp add: physicalIndex_mask popcount_def)
qed

lemma popcount_split:
  assumes "n < 32"
  shows "popcount w = length (filter (bit w) [0..<n]) + (if bit w n then 1 else 0)
     + length (filter (bit w) [Suc n..<32])"
proof -
  have "[0..<32] = [0..<n] @ n # [Suc n..<32]"
    using assms by (metis le0 upt_add_eq_append le_add_diff_inverse less_imp_le upt_conv_Cons)
  then show ?thesis by (simp add: popcount_def)
qed

lemma physicalIndex_le: "n < 32 \<Longrightarrow> physicalIndex bm n \<le> popcount bm"
  by (simp add: physicalIndex_filter popcount_split [of n])

lemma physicalIndex_less: "n < 32 \<Longrightarrow> bit bm n \<Longrightarrow> physicalIndex bm n < popcount bm"
  by (simp add: physicalIndex_filter popcount_split [of n])

lemma bit_set_bit: "n < 32 \<Longrightarrow> bit (bm OR 2 ^ n :: u32) k \<longleftrightarrow> bit bm k \<or> k = n"
  by (auto simp: bit_or_iff bit_exp_iff)

lemma popcount_set_bit:
  assumes "n < 32" "\<not> bit bm n"
  shows "popcount (bm OR 2 ^ n) = Suc (popcount bm)"
proof -
  have 1: "filter (bit (bm OR 2 ^ n)) [0..<n] = filter (bit bm) [0..<n]"
    by (rule filter_cong) (auto simp: bit_set_bit [OF assms(1)])
  have 2: "filter (bit (bm OR 2 ^ n)) [Suc n..<32] = filter (bit bm) [Suc n..<32]"
    by (rule filter_cong) (auto simp: bit_set_bit [OF assms(1)])
  show ?thesis
    using assms by (simp add: popcount_split [of n] 1 2 bit_set_bit)
qed

lemma physicalIndex_set_bit:
  assumes "n < 32" "m \<le> n"
  shows "physicalIndex (bm OR 2 ^ n) m = physicalIndex bm m"
proof -
  have "filter (bit (bm OR 2 ^ n)) [0..<m] = filter (bit bm) [0..<m]"
    using assms by (intro filter_cong) (auto simp: bit_set_bit)
  with assms show ?thesis by (simp add: physicalIndex_filter)
qed

lemma popcount_free_le:
  assumes "n < 32" "\<not> bit bm n"
  shows "popcount bm \<le> 31"
proof -
  have "length (filter (bit bm) [0..<n]) \<le> length [0..<n]" by (rule length_filter_le)
  moreover have "length (filter (bit bm) [Suc n..<32]) \<le> length [Suc n..<32]"
    by (rule length_filter_le)
  ultimately show ?thesis using assms by (simp add: popcount_split [of n])
qed

lemma hash_slice_less: "hash_slice hash hash_offset < 32"
proof -
  have "unat (drop_bit hash_offset hash AND 0x1f) \<le> unat (0x1f :: u32)"
    by (rule word_and_le1 [THEN word_le_nat_alt [THEN iffD1]])
  then show ?thesis by (simp add: hash_slice_def)
qed

section \<open>\<open>BitmapTrieTemplate::insertEntry\<close>\<close>

lemma move_cells_result:
  assumes "hi \<le> length dst" "\<And>k. j \<le> k \<Longrightarrow> k < hi \<Longrightarrow> k - d < length src"
  shows "\<exists>dst'. move_cells j hi d src dst = Inr dst' \<and> length dst' = length dst \<and>
           (\<forall>k < length dst. dst' ! k = (if j \<le> k \<and> k < hi then src ! (k - d) else dst ! k))"
  using assms
proof (induction j hi d src dst rule: move_cells.induct)
  case (1 j hi d src dst)
  show ?case
  proof (cases "j < hi")
    case False
    then show ?thesis by (subst move_cells.simps) auto
  next
    case True
    from True "1.prems" have inr: "\<not> (j - d \<ge> length src \<or> j \<ge> length dst)"
      by (auto simp: not_le)
    let ?dst1 = "dst[j := src ! (j - d)]"
    have "\<exists>dst'. move_cells (j + 1) hi d src ?dst1 = Inr dst' \<and> length dst' = length ?dst1 \<and>
           (\<forall>k < length ?dst1. dst' ! k =
              (if j + 1 \<le> k \<and> k < hi then src ! (k - d) else ?dst1 ! k))"
      using True inr "1.prems" by (intro "1.IH") auto
    then obtain dst' where r: "move_cells (j + 1) hi d src ?dst1 = Inr dst'"
      and l: "length dst' = length dst"
      and c: "\<And>k. k < length dst \<Longrightarrow> dst' ! k =
              (if j + 1 \<le> k \<and> k < hi then src ! (k - d) else ?dst1 ! k)"
      by auto
    have "move_cells j hi d src dst = Inr dst'"
      using True inr r by (subst move_cells.simps) simp
    moreover have "\<forall>k < length dst. dst' ! k = (if j \<le> k \<and> k < hi then src ! (k - d) else dst ! k)"
    proof (intro allI impI)
      fix k assume k: "k < length dst"
      show "dst' ! k = (if j \<le> k \<and> k < hi then src ! (k - d) else dst ! k)"
        using c [OF k] k True by (cases "k = j") auto
    qed
    ultimately show ?thesis using l by blast
  qed
qed

lemma shift_cells_result:
  assumes "i < j \<Longrightarrow> j < length b"
  shows "\<exists>b'. shift_cells j i b = Inr b' \<and> length b' = length b \<and>
           (\<forall>k < length b. b' ! k = (if i < k \<and> k \<le> j then b ! (k - 1) else b ! k))"
  using assms
proof (induction j i b rule: shift_cells.induct)
  case (1 j i b)
  show ?case
  proof (cases "j > i")
    case False
    then show ?thesis by (subst shift_cells.simps) auto
  next
    case True
    with "1.prems" have jl: "j < length b" by simp
    let ?b1 = "b[j := b ! (j - 1)]"
    have "\<exists>b'. shift_cells (j - 1) i ?b1 = Inr b' \<and> length b' = length ?b1 \<and>
           (\<forall>k < length ?b1. b' ! k = (if i < k \<and> k \<le> j - 1 then ?b1 ! (k - 1) else ?b1 ! k))"
      using True jl by (intro "1.IH") auto
    then obtain b' where r: "shift_cells (j - 1) i ?b1 = Inr b'"
      and l: "length b' = length b"
      and c: "\<And>k. k < length b \<Longrightarrow> b' ! k =
                (if i < k \<and> k \<le> j - 1 then ?b1 ! (k - 1) else ?b1 ! k)"
      by auto
    have "shift_cells j i b = Inr b'"
      using True jl r by (subst shift_cells.simps) simp
    moreover have "\<forall>k < length b. b' ! k = (if i < k \<and> k \<le> j then b ! (k - 1) else b ! k)"
    proof (intro allI impI)
      fix k assume k: "k < length b"
      show "b' ! k = (if i < k \<and> k \<le> j then b ! (k - 1) else b ! k)"
        using c [OF k] k True jl by (cases "k = j") auto
    qed
    ultimately show ?thesis using l by blast
  qed
qed

text \<open>The live cells after the new one has been placed.\<close>

lemma live_after_insert:
  assumes "i \<le> sz" "sz < length c" "sz \<le> length b"
    and "\<And>k. k \<le> sz \<Longrightarrow> k \<noteq> i \<Longrightarrow> c ! k = (if k < i then b ! k else b ! (k - 1))"
  shows "take (Suc sz) (c[i := e]) = take i b @ e # drop i (take sz b)"
proof (rule nth_equalityI)
  show "length (take (Suc sz) (c[i := e])) = length (take i b @ e # drop i (take sz b))"
    using assms(1-3) by simp
next
  fix k assume "k < length (take (Suc sz) (c[i := e]))"
  then have k: "k < Suc sz" by simp
  show "take (Suc sz) (c[i := e]) ! k = (take i b @ e # drop i (take sz b)) ! k"
  proof (cases "k < i")
    case True
    with k assms(1-3) assms(4) [of k] show ?thesis by (simp add: nth_append)
  next
    case False
    show ?thesis
    proof (cases "k = i")
      case True
      with k assms(1-3) show ?thesis by (simp add: nth_append)
    next
      case ne: False
      with False have gt: "i < k" by simp
      then obtain m where m: "k = Suc (i + m)" by (metis less_imp_Suc_add)
      with k assms(1-3) assms(4) [of k] gt show ?thesis
        by (simp add: nth_append)
    qed
  qed
qed

lemma oracle_capacity:
  assumes "1 \<le> required" "required \<le> 32" "1 \<le> expected_size"
  shows "\<exists>c. hamt_trie_allocation_size required expected_size level = Inr c \<and>
           required \<le> c \<and> c \<le> 32"
proof -
  define l where "l = (if level > 4 then 4 else level)"
  define g where "g = (if level > 4 then 0 else generation_of expected_size)"
  have "l < 5" by (simp add: l_def)
  moreover have "g < 23" by (simp add: g_def generation_of_def Let_def)
  ultimately have st: "alloc_sizes_by_level ! l ! g \<in> set stops" by (rule by_level_stop)
  from guess_cases(2,3) [OF assms(1,2) st] oracle_unfold [OF assms, of level]
  show ?thesis unfolding l_def g_def by simp
qed

lemma allocate_fail: "next_outcome a = (False, a') \<Longrightarrow> allocate a n = (None, a')"
  by (simp add: allocate_def)

lemma allocate_ok:
  "next_outcome a = (True, a') \<Longrightarrow> allocate a n = (Some (replicate n Uninit), a')"
  by (simp add: allocate_def)

lemma insertEntry_in_place:
  assumes li: "li < 32" and free: "\<not> bit bm li" and len: "length b = cap"
    and room: "popcount bm + 1 \<le> cap"
  shows "\<exists>b'. BitmapTrie_insertEntry a (Trie bm cap b) li e n lvl =
            Inr (Some (physicalIndex bm li), Trie (bm OR push_bit li 1) cap b', a) \<and>
          length b' = cap \<and>
          take (Suc (popcount bm)) b' =
            take (physicalIndex bm li) b @ Entry (fst e) (snd e) #
              drop (physicalIndex bm li) (take (popcount bm) b)"
proof -
  define i where "i = physicalIndex bm li"
  define sz where "sz = popcount bm"
  have isz: "i \<le> sz" unfolding i_def sz_def using li by (rule physicalIndex_le)
  have "sz \<le> 31"
    unfolding sz_def using li free by (rule popcount_free_le)
  from room have szl: "sz < length b" by (simp add: sz_def len)
  then have "i < sz \<Longrightarrow> sz < length b" by simp
  from shift_cells_result [OF this] obtain c where
    sh: "shift_cells sz i b = Inr c" and lc: "length c = length b"
    and c: "\<And>k. k < length b \<Longrightarrow> c ! k = (if i < k \<and> k \<le> sz then b ! (k - 1) else b ! k)"
    by blast
  have nt: "bm AND push_bit li 1 = 0"
    using free by (simp add: push_bit_of_1 and_exp_eq_0_iff_not_bit)
  have cne: "c \<noteq> []" using lc szl by auto
  have il: "i < length c" using isz szl lc by simp
  have pe: "place_entry bm cap c li i e a =
      Inr (Some i, Trie (bm OR push_bit li 1) cap (c[i := Entry (fst e) (snd e)]), a)"
    using nt cne il by (simp add: place_entry_def)
  have "BitmapTrie_insertEntry a (Trie bm cap b) li e n lvl =
      Inr (Some i, Trie (bm OR push_bit li 1) cap (c[i := Entry (fst e) (snd e)]), a)"
    using room \<open>sz \<le> 31\<close> sh pe
    by (simp add: BitmapTrie_insertEntry_def i_def [symmetric] sz_def [symmetric])
  moreover have "take (Suc sz) (c[i := Entry (fst e) (snd e)]) =
      take i b @ Entry (fst e) (snd e) # drop i (take sz b)"
  proof (rule live_after_insert [OF isz])
    show "sz < length c" using szl lc by simp
    show "sz \<le> length b" using szl by simp
    fix k assume "k \<le> sz" "k \<noteq> i"
    with c [of k] szl show "c ! k = (if k < i then b ! k else b ! (k - 1))" by auto
  qed
  ultimately show ?thesis
    using lc len by (auto simp: i_def sz_def)
qed

lemma insertEntry_grow:
  assumes li: "li < 32" and free: "\<not> bit bm li" and len: "length b = cap"
    and fits: "popcount bm \<le> cap" and full: "cap < popcount bm + 1" and n: "0 < n"
  shows "\<exists>c. hamt_trie_allocation_size (popcount bm + 1) n lvl = Inr c \<and>
          popcount bm + 1 \<le> c \<and> c \<le> 32 \<and>
          (\<forall>a'. next_outcome a = (False, a') \<longrightarrow>
             BitmapTrie_insertEntry a (Trie bm cap b) li e n lvl = Inr (None, Trie bm cap b, a')) \<and>
          (\<forall>a'. next_outcome a = (True, a') \<longrightarrow>
             (\<exists>b'. BitmapTrie_insertEntry a (Trie bm cap b) li e n lvl =
                Inr (Some (physicalIndex bm li), Trie (bm OR push_bit li 1) c b', a') \<and>
              length b' = c \<and>
              take (Suc (popcount bm)) b' =
                take (physicalIndex bm li) b @ Entry (fst e) (snd e) #
                  drop (physicalIndex bm li) (take (popcount bm) b)))"
proof -
  define i where "i = physicalIndex bm li"
  define sz where "sz = popcount bm"
  have isz: "i \<le> sz" unfolding i_def sz_def using li by (rule physicalIndex_le)
  have sz31: "sz \<le> 31"
    unfolding sz_def using li free by (rule popcount_free_le)
  have szb: "sz \<le> length b" using fits len by (simp add: sz_def)
  from sz31 n oracle_capacity [of "sz + 1" n lvl] obtain c where
    oc: "hamt_trie_allocation_size (sz + 1) n lvl = Inr c" and cl: "sz + 1 \<le> c" and cu: "c \<le> 32"
    by auto
  have nt: "bm AND push_bit li 1 = 0"
    using free by (simp add: push_bit_of_1 and_exp_eq_0_iff_not_bit)
  have fail: "BitmapTrie_insertEntry a (Trie bm cap b) li e n lvl = Inr (None, Trie bm cap b, a')"
    if no: "next_outcome a = (False, a')" for a'
  proof -
    have "(allocate a c :: ('a, 'b) node list option \<times> allocator) = (None, a')"
      using no by (rule allocate_fail)
    then show ?thesis
      using full sz31 oc
      by (simp add: BitmapTrie_insertEntry_def Let_def sz_def [symmetric])
  qed
  have ok: "\<exists>b'. BitmapTrie_insertEntry a (Trie bm cap b) li e n lvl =
                Inr (Some i, Trie (bm OR push_bit li 1) c b', a') \<and>
              length b' = c \<and>
              take (Suc sz) b' = take i b @ Entry (fst e) (snd e) # drop i (take sz b)"
    if no: "next_outcome a = (True, a')" for a'
  proof -
    define cells :: "('a, 'b) node list" where "cells = replicate c Uninit"
    have al: "allocate a c = (Some cells, a')"
      unfolding cells_def using no by (rule allocate_ok)
    note cells = cells_def
    show ?thesis
    proof (cases "b = []")
      case True
      with szb isz have z: "sz = 0" "i = 0" by simp_all
      have "place_entry bm c cells li 0 e a' =
          Inr (Some 0, Trie (bm OR push_bit li 1) c (cells[0 := Entry (fst e) (snd e)]), a')"
        using nt cl cells by (auto simp: place_entry_def)
      then have "BitmapTrie_insertEntry a (Trie bm cap b) li e n lvl =
          Inr (Some i, Trie (bm OR push_bit li 1) c (cells[0 := Entry (fst e) (snd e)]), a')"
        using full sz31 oc al True z
        by (simp add: BitmapTrie_insertEntry_def Let_def sz_def [symmetric] i_def [symmetric])
      moreover have "take (Suc sz) (cells[0 := Entry (fst e) (snd e)]) =
          take i b @ Entry (fst e) (snd e) # drop i (take sz b)"
        using z True cl cells by (cases c) simp_all
      ultimately show ?thesis using cells by auto
    next
      case False
      have "i \<le> length cells" using isz cl cells by simp
      moreover have "\<And>k. 0 \<le> k \<Longrightarrow> k < i \<Longrightarrow> k - 0 < length b" using isz szb by simp
      ultimately obtain nb1 where
        m1: "move_cells 0 i 0 b cells = Inr nb1" and l1: "length nb1 = length cells"
        and c1: "\<And>k. k < length cells \<Longrightarrow> nb1 ! k = (if 0 \<le> k \<and> k < i then b ! (k - 0) else cells ! k)"
        using move_cells_result [of i cells 0 0 b] by blast
      have "sz + 1 \<le> length nb1" using cl cells l1 by simp
      moreover have "\<And>k. i + 1 \<le> k \<Longrightarrow> k < sz + 1 \<Longrightarrow> k - 1 < length b" using szb by simp
      ultimately obtain nb2 where
        m2: "move_cells (i + 1) (sz + 1) 1 b nb1 = Inr nb2" and l2: "length nb2 = length nb1"
        and c2: "\<And>k. k < length nb1 \<Longrightarrow>
                   nb2 ! k = (if i + 1 \<le> k \<and> k < sz + 1 then b ! (k - 1) else nb1 ! k)"
        using move_cells_result [of "sz + 1" nb1 "i + 1" 1 b] by blast
      have l: "length nb2 = c" using l1 l2 cells by simp
      have "place_entry bm c nb2 li i e (deallocate a' b cap) =
          Inr (Some i, Trie (bm OR push_bit li 1) c (nb2[i := Entry (fst e) (snd e)]), a')"
        using nt cl l isz by (auto simp: place_entry_def deallocate_def)
      then have "BitmapTrie_insertEntry a (Trie bm cap b) li e n lvl =
          Inr (Some i, Trie (bm OR push_bit li 1) c (nb2[i := Entry (fst e) (snd e)]), a')"
        using full sz31 oc al False m1 m2
        by (simp add: BitmapTrie_insertEntry_def Let_def sz_def [symmetric] i_def [symmetric])
      moreover have "take (Suc sz) (nb2[i := Entry (fst e) (snd e)]) =
          take i b @ Entry (fst e) (snd e) # drop i (take sz b)"
      proof (rule live_after_insert [OF isz])
        show "sz < length nb2" using l cl by simp
        show "sz \<le> length b" by (rule szb)
        fix k assume k: "k \<le> sz" "k \<noteq> i"
        then have "k < length nb1" "k < length cells" using l l1 l2 cl by simp_all
        with c1 [of k] c2 [of k] k show "nb2 ! k = (if k < i then b ! k else b ! (k - 1))"
          by auto
      qed
      ultimately show ?thesis using l by auto
    qed
  qed
  from oc cl cu fail ok show ?thesis
    unfolding i_def sz_def by blast
qed

text \<open>
  On a bitmap trie that satisfies the data model (\<open>_base\<close> is an array of \<open>_capacity\<close>
  cells, null when the capacity is 0, and the population fits) and whose bitmap bit at
  \<open>logical_index\<close> is 0, \<open>insertEntry\<close> either returns a pointer to the cell at physical
  index \<open>popcount(bitmap & ((1 << logical_index) - 1))\<close>, which holds the new leaf, with
  the bitmap bit set and the previously live nodes in the same order around it; or, when
  it has to grow and the allocator returns null, it returns null and the trie is
  unchanged. The hypothesis on \<open>_base\<close> is needed: \<open>allocate\<close> does not establish it when
  the allocator returns null, as the evaluation after this lemma shows.
\<close>

lemma insertEntry_on_allocated_base:
  assumes "logical_index < 32" and "\<not> logicalPositionTaken bm logical_index"
    and "length b = cap" and "popcount bm \<le> cap" and "0 < expected_hamt_size"
  shows
    "(\<exists>cap' b' a'.
        (popcount bm + 1 \<le> cap \<or> fst (next_outcome a)) \<and>
        BitmapTrie_insertEntry a (Trie bm cap b) logical_index (k, v) expected_hamt_size level =
          Inr (Some (physicalIndex bm logical_index),
               Trie (bm OR push_bit logical_index 1) cap' b', a') \<and>
        length b' = cap' \<and>
        popcount (bm OR push_bit logical_index 1) = popcount bm + 1 \<and>
        popcount bm + 1 \<le> cap' \<and>
        b' ! physicalIndex bm logical_index = Entry k v \<and>
        take (popcount bm + 1) b' =
          take (physicalIndex bm logical_index) b @ Entry k v #
            drop (physicalIndex bm logical_index) (take (popcount bm) b)) \<or>
     (\<exists>a'. cap < popcount bm + 1 \<and> next_outcome a = (False, a') \<and>
        BitmapTrie_insertEntry a (Trie bm cap b) logical_index (k, v) expected_hamt_size level =
          Inr (None, Trie bm cap b, a'))"
proof -
  let ?i = "physicalIndex bm logical_index"
  let ?live = "take ?i b @ Entry k v # drop ?i (take (popcount bm) b)"
  from assms(2) have free: "\<not> bit bm logical_index" by (simp add: taken_iff_bit)
  have pc: "popcount (bm OR push_bit logical_index 1) = popcount bm + 1"
    using popcount_set_bit [OF assms(1) free] by (simp add: push_bit_of_1)
  have isz: "?i \<le> popcount bm" using assms(1) by (rule physicalIndex_le)
  have at: "b' ! ?i = Entry k v"
    if "take (Suc (popcount bm)) b' = ?live" and "popcount bm < length b'" for b'
  proof -
    from isz that(2) have "b' ! ?i = take (Suc (popcount bm)) b' ! ?i" by simp
    also have "\<dots> = ?live ! ?i" by (simp only: that(1))
    also have "\<dots> = Entry k v"
      using isz assms(3,4) by (simp add: nth_append)
    finally show ?thesis .
  qed
  show ?thesis
  proof (cases "popcount bm + 1 \<le> cap")
    case True
    from insertEntry_in_place [OF assms(1) free assms(3) True, of a "(k, v)" expected_hamt_size level]
    obtain b' where
      r: "BitmapTrie_insertEntry a (Trie bm cap b) logical_index (k, v) expected_hamt_size level =
            Inr (Some ?i, Trie (bm OR push_bit logical_index 1) cap b', a)"
      and l: "length b' = cap" and t: "take (Suc (popcount bm)) b' = ?live"
      by auto
    from at [OF t] l True have "b' ! ?i = Entry k v" by simp
    with True r l t pc show ?thesis by auto
  next
    case False
    then have full: "cap < popcount bm + 1" by simp
    from insertEntry_grow [OF assms(1) free assms(3,4) full assms(5), of level a "(k, v)"]
    obtain c where c: "popcount bm + 1 \<le> c"
      and fail: "\<And>a'. next_outcome a = (False, a') \<Longrightarrow>
        BitmapTrie_insertEntry a (Trie bm cap b) logical_index (k, v) expected_hamt_size level =
          Inr (None, Trie bm cap b, a')"
      and ok: "\<And>a'. next_outcome a = (True, a') \<Longrightarrow>
        \<exists>b'. BitmapTrie_insertEntry a (Trie bm cap b) logical_index (k, v) expected_hamt_size
                level =
                Inr (Some ?i, Trie (bm OR push_bit logical_index 1) c b', a') \<and>
              length b' = c \<and> take (Suc (popcount bm)) b' = ?live"
      by auto
    obtain o' a' where no: "next_outcome a = (o', a')" by (cases "next_outcome a")
    show ?thesis
    proof (cases o')
      case True
      from no True have "next_outcome a = (True, a')" by simp
      from ok [OF this] obtain b' where
        r: "BitmapTrie_insertEntry a (Trie bm cap b) logical_index (k, v) expected_hamt_size
              level = Inr (Some ?i, Trie (bm OR push_bit logical_index 1) c b', a')"
        and l: "length b' = c" and t: "take (Suc (popcount bm)) b' = ?live"
        by auto
      from at [OF t] l c have "b' ! ?i = Entry k v" by simp
      with True no r l t pc c show ?thesis by auto
    next
      case False
      with fail [of a'] no full show ?thesis by auto
    qed
  qed
qed

lemma insertEntry_on_allocated_base_example:
  "(1::nat) < 32 \<and> \<not> logicalPositionTaken 5 1 \<and>
   length [Entry (10::u64) (1::int), Entry 12 2] = 2 \<and> popcount 5 \<le> 2 \<and> (0::nat) < 3 \<and>
   BitmapTrie_insertEntry [] (Trie 5 2 [Entry (10::u64) (1::int), Entry 12 2]) 1 (11, 5) 3 0 =
     Inr (Some 1, Trie 7 5 [Entry 10 1, Entry 11 5, Entry 12 2, Uninit, Uninit], []) \<and>
   BitmapTrie_insertEntry [False] (Trie 5 2 [Entry (10::u64) (1::int), Entry 12 2]) 1 (11, 5) 3 0 =
     Inr (None, Trie 5 2 [Entry 10 1, Entry 12 2], []) \<and>
   ((\<exists>cap' b' a'.
        (popcount 5 + 1 \<le> 2 \<or> fst (next_outcome [])) \<and>
        BitmapTrie_insertEntry [] (Trie 5 2 [Entry (10::u64) (1::int), Entry 12 2]) 1 (11, 5) 3 0 =
          Inr (Some (physicalIndex 5 1), Trie (5 OR push_bit 1 1) cap' b', a') \<and>
        length b' = cap' \<and>
        popcount (5 OR push_bit 1 1) = popcount 5 + 1 \<and>
        popcount 5 + 1 \<le> cap' \<and>
        b' ! physicalIndex 5 1 = Entry 11 5 \<and>
        take (popcount 5 + 1) b' =
          take (physicalIndex 5 1) [Entry 10 1, Entry 12 2] @ Entry 11 5 #
            drop (physicalIndex 5 1) (take (popcount 5) [Entry 10 1, Entry 12 2])) \<or>
     (\<exists>a'. 2 < popcount 5 + 1 \<and> next_outcome [] = (False, a') \<and>
        BitmapTrie_insertEntry [] (Trie 5 2 [Entry (10::u64) (1::int), Entry 12 2]) 1 (11, 5) 3 0 =
          Inr (None, Trie 5 2 [Entry 10 1, Entry 12 2], a')))"
proof -
  have h: "(1::nat) < 32" "\<not> logicalPositionTaken 5 1"
    "length [Entry (10::u64) (1::int), Entry 12 2] = 2" "popcount 5 \<le> 2" "(0::nat) < 3"
    by code_simp+
  have v: "BitmapTrie_insertEntry [] (Trie 5 2 [Entry (10::u64) (1::int), Entry 12 2]) 1 (11, 5) 3 0 =
     Inr (Some 1, Trie 7 5 [Entry 10 1, Entry 11 5, Entry 12 2, Uninit, Uninit], [])"
    "BitmapTrie_insertEntry [False] (Trie 5 2 [Entry (10::u64) (1::int), Entry 12 2]) 1 (11, 5) 3 0 =
     Inr (None, Trie 5 2 [Entry 10 1, Entry 12 2], [])"
    by code_simp+
  from h v insertEntry_on_allocated_base [OF h, of "[]" 11 5 0] show ?thesis
    by (intro conjI)
qed

text \<open>
  Claim C7 says that \<open>insertEntry\<close>, on every bitmap trie whose bitmap bit at
  \<open>logical_index\<close> is 0, either returns a pointer to the new leaf or, when the allocator
  returns null, returns null and leaves the trie unchanged. The code does neither on the
  trie that \<open>allocate\<close> leaves behind when the allocator returns null: \<open>allocate\<close> stores
  the capacity before it allocates and keeps it with the null base, and its callers (the
  constructor and \<open>Node::BitmapTrie\<close>) discard the pointer it returns. So the container
  constructed by \<open>HashArrayMappedTrie(1)\<close> with an allocator that returns null has the
  root (bitmap 0, capacity 2, base null); bit 10 of its bitmap is 0; and \<open>insertEntry\<close>
  at logical index 10 finds \<open>required = 1 \<le> _capacity\<close>, asks the allocator for nothing
  and constructs the leaf through the null base. The branch of \<open>insertEntry\<close> that
  grows the array does test \<open>_base == nullptr\<close>; the branch that inserts in place does
  not. The same happens through \<open>insert\<close> of the entry \<open>(7, 1)\<close>, whose first hash slice
  is 10.
\<close>

theorem insertEntry_writes_through_null_base:
  "HashArrayMappedTrie 1 [False] =
     Inr (\<lparr>h_count = 0, h_root = Trie 0 2 [], h_seed = default_seed, h_allocator = []\<rparr>
          :: (u64, int) hamt) \<and>
   \<not> logicalPositionTaken 0 10 \<and>
   BitmapTrie_insertEntry [] (Trie 0 2 [] :: (u64, int) node) 10 (7, 1) 1 0 =
     Inl NullDereference \<and>
   insert_hamt IdentityFunction
     (\<lparr>h_count = 0, h_root = Trie 0 2 [], h_seed = default_seed, h_allocator = []\<rparr>
      :: (u64, int) hamt) (7, 1) = Some (Inl NullDereference)"
  by code_simp

section \<open>Lookup after insertion\<close>

lemma place_entry_Some:
  assumes "place_entry bm cap b li i e a = Inr (Some j, t', a')"
  shows "t' = Trie (bm OR push_bit li 1) cap (b[i := Entry (fst e) (snd e)]) \<and> j = i \<and>
         i < length b \<and> bm AND push_bit li 1 = 0 \<and> a' = a"
  using assms by (auto simp: place_entry_def split: if_splits)

lemma BitmapTrie_insertEntry_Some:
  assumes "BitmapTrie_insertEntry a (Trie bm cap b) li e n lvl = Inr (Some i, t', a')"
  shows "\<exists>cap' b'. t' = Trie (bm OR push_bit li 1) cap' b' \<and> i = physicalIndex bm li \<and>
           i < length b' \<and> b' ! i = Entry (fst e) (snd e) \<and> bm AND push_bit li 1 = 0"
  using assms
  by (auto simp: BitmapTrie_insertEntry_def Let_def
      split: if_splits sum.splits prod.splits option.splits dest!: place_entry_Some)

lemma find_placed:
  assumes "li < 32" "bm AND push_bit li 1 = 0" "i = physicalIndex bm li" "i < length b'"
    "b' ! i = Entry k v" "hash_slice hash off = li"
  shows "findNode_from hf k (Trie (bm OR push_bit li 1) cap' b') seed hash off =
           Inr (Some ([i], k, v))"
proof -
  have t: "logicalPositionTaken (bm OR push_bit li 1) li"
    using assms(1) by (simp add: taken_iff_bit push_bit_of_1 bit_set_bit)
  have p: "physicalIndex (bm OR push_bit li 1) li = i"
    using assms(1,3) by (simp add: physicalIndex_set_bit)
  from assms(4) have ne: "b' \<noteq> []" by auto
  show ?thesis using t p ne assms(4,5,6) by simp
qed

lemma find_descend:
  assumes "logicalPositionTaken bm (hash_slice hash off)"
    and "i = physicalIndex bm (hash_slice hash off)" and "i < length b"
    and "advance hf k (seed, hash, off) = (s', h', o')"
    and "findNode_from hf k n' s' h' o' = Inr (Some (p0, k, v))"
  shows "findNode_from hf k (Trie bm cap (b[i := n'])) seed hash off = Inr (Some (i # p0, k, v))"
proof (cases n')
  case Uninit
  with assms(5) show ?thesis by simp
next
  case (Entry k' v')
  with assms(5) show ?thesis by simp
next
  case (Trie bm' cap' b')
  from assms(3) have "b \<noteq> []" by auto
  with assms(1-4) assms(5) [unfolded Trie] Trie show ?thesis by simp
qed

lemma find_after_insertEntry_aux:
  assumes major: "insertEntry hf0 cnt0 a0 t0 e0 seed0 hash0 off0 lvl0 = Some r0"
  shows "\<forall>p t' a'. r0 = Inr (Some p, t', a') \<longrightarrow>
      findNode_from hf0 (fst e0) t' seed0 hash0 off0 = Inr (Some (p, fst e0, snd e0))"
proof (rule insertEntry.raw_induct [where P = "\<lambda>hf cnt a t e seed hash off lvl r.
    \<forall>p t' a'. r = Inr (Some p, t', a') \<longrightarrow>
      findNode_from hf (fst e) t' seed hash off = Inr (Some (p, fst e, snd e))", OF _ major],
    goal_cases)
  case (1 ins hf cnt a t e seed hash off lvl r)
  note IH = 1(1) and body = 1(2)
  show ?case
  proof (intro allI impI)
    fix p t' a'
    assume r: "r = Inr (Some p, t', a')"
    show "findNode_from hf (fst e) t' seed hash off = Inr (Some (p, fst e, snd e))"
    proof (cases t)
      case Uninit
      with body r show ?thesis by simp
    next
      case (Entry k v)
      with body r show ?thesis by simp
    next
      case (Trie bm cap b)
      define slot where "slot = hash_slice hash off"
      define i where "i = physicalIndex bm slot"
      have slot32: "slot < 32" unfolding slot_def by (rule hash_slice_less)
      show ?thesis
      proof (cases "logicalPositionTaken bm slot")
        case False
        with body Trie r have "BitmapTrie_insertEntry a (Trie bm cap b) slot e (cnt + 1) lvl =
            Inr (Some (hd p), t', a') \<and> p = [hd p]"
          by (auto simp: slot_def [symmetric] split: sum.splits option.splits prod.splits)
        then have bi: "BitmapTrie_insertEntry a (Trie bm cap b) slot e (cnt + 1) lvl =
            Inr (Some (hd p), t', a')" and p: "p = [hd p]" by simp_all
        from BitmapTrie_insertEntry_Some [OF bi] obtain cap' b' where
          t': "t' = Trie (bm OR push_bit slot 1) cap' b'" and hp: "hd p = physicalIndex bm slot"
          and l: "hd p < length b'" and c: "b' ! hd p = Entry (fst e) (snd e)"
          and z: "bm AND push_bit slot 1 = 0"
          by blast
        have "findNode_from hf (fst e) (Trie (bm OR push_bit slot 1) cap' b') seed hash off =
           Inr (Some ([hd p], fst e, snd e))"
          using slot32 z hp l c by (rule find_placed) (simp add: slot_def)
        with t' p show ?thesis by simp
      next
        case True
        from body Trie True r have ne: "b \<noteq> []" and il: "i < length b"
          by (auto simp: slot_def [symmetric] i_def [symmetric] Let_def split: if_splits)
        obtain s' h' o' where adv: "advance hf (fst e) (seed, hash, off) = (s', h', o')"
          by (cases "advance hf (fst e) (seed, hash, off)")
        have descend: "findNode_from hf (fst e) (Trie bm cap (b[i := n'])) seed hash off =
              Inr (Some (i # p0, fst e, snd e))"
          if "findNode_from hf (fst e) n' s' h' o' = Inr (Some (p0, fst e, snd e))" for n' p0
          using True [unfolded slot_def] i_def [unfolded slot_def] il adv that
          by (rule find_descend)
        show ?thesis
        proof (cases "b ! i")
          case Uninit
          with body Trie True r ne il show ?thesis
            by (simp add: slot_def [symmetric] i_def [symmetric] Let_def)
        next
          case (Trie bm' cap' b')
          with body \<open>t = Trie bm cap b\<close> True ne il adv
          obtain r1 where r1: "ins hf cnt a (b ! i) e s' h' o' (lvl + 1) = Some r1"
            and k: "(case r1 of Inl e \<Rightarrow> Some (Inl e)
                     | Inr (None, n', a') \<Rightarrow> Some (Inr (None, Trie bm cap (b[i := n']), a'))
                     | Inr (Some p, n', a') \<Rightarrow>
                         Some (Inr (Some (i # p), Trie bm cap (b[i := n']), a'))) = Some r"
            by (auto simp: slot_def [symmetric] i_def [symmetric] Let_def bind_eq_Some_conv)
          from k r obtain p0 n' where r1': "r1 = Inr (Some p0, n', a')" and p: "p = i # p0"
            and t': "t' = Trie bm cap (b[i := n'])"
            by (auto split: sum.splits option.splits prod.splits)
          from IH [OF r1] r1' have "findNode_from hf (fst e) n' s' h' o' =
              Inr (Some (p0, fst e, snd e))" by simp
          from descend [OF this] p t' show ?thesis by simp
        next
          case (Entry old_key old_value)
          show ?thesis
          proof (cases "old_key = fst e")
            case same: True
            with body \<open>t = Trie bm cap b\<close> True ne il Entry r
            have "p = [i]" "t' = Trie bm cap (b[i := Entry old_key (snd e)])"
              by (simp_all add: slot_def [symmetric] i_def [symmetric] Let_def)
            with same True ne il show ?thesis
              by (simp add: slot_def [symmetric] i_def [symmetric])
          next
            case differ: False
            obtain new_trie :: "('a, 'b) node" and a1
              where al: "BitmapTrie_allocate a 2 = (new_trie, a1)"
              by (cases "BitmapTrie_allocate a 2 :: ('a, 'b) node \<times> allocator")
            from body \<open>t = Trie bm cap b\<close> True ne il Entry differ adv al r
            obtain r1 where
              r1: "ins hf cnt a1 new_trie (old_key, old_value) s' (hash32 hf old_key s') o'
                     (lvl + 1) = Some r1"
              and k1: "(case r1 of Inl e \<Rightarrow> Some (Inl e)
                  | Inr (None, t1, a2) \<Rightarrow>
                      Some (Inr (None, Trie bm cap (b[i := Entry old_key old_value]), a2))
                  | Inr (Some replaced_node, t1, a2) \<Rightarrow>
                      Option.bind (ins hf cnt a2 t1 e s' h' o' (lvl + 1))
                        (\<lambda>r2. case r2 of Inl e \<Rightarrow> Some (Inl e)
                           | Inr (None, t2, a3) \<Rightarrow>
                               Some (Inr (None, Trie bm cap (b[i := t2]), a3))
                           | Inr (Some p, t2, a3) \<Rightarrow>
                               Some (Inr (Some (i # p), Trie bm cap (b[i := t2]), a3)))) =
                  Some r"
              by (auto simp: slot_def [symmetric] i_def [symmetric] Let_def bind_eq_Some_conv
                  split: if_splits)
            from k1 r obtain rn t1 a2 where r1': "r1 = Inr (Some rn, t1, a2)"
              by (cases r1) (auto split: option.splits prod.splits)
            from k1 [unfolded r1'] obtain r2 where
              r2: "ins hf cnt a2 t1 e s' h' o' (lvl + 1) = Some r2"
              and k2: "(case r2 of Inl e \<Rightarrow> Some (Inl e)
                           | Inr (None, t2, a3) \<Rightarrow>
                               Some (Inr (None, Trie bm cap (b[i := t2]), a3))
                           | Inr (Some p, t2, a3) \<Rightarrow>
                               Some (Inr (Some (i # p), Trie bm cap (b[i := t2]), a3))) =
                  Some r"
              by (cases "ins hf cnt a2 t1 e s' h' o' (lvl + 1)") auto
            from k2 r obtain p0 t2 where r2': "r2 = Inr (Some p0, t2, a')" and p: "p = i # p0"
              and t': "t' = Trie bm cap (b[i := t2])"
              by (auto split: sum.splits option.splits prod.splits)
            from IH [OF r2] r2' have "findNode_from hf (fst e) t2 s' h' o' =
                Inr (Some (p0, fst e, snd e))" by simp
            from descend [OF this] p t' show ?thesis by simp
          qed
        qed
      qed
    qed
  qed
qed

text \<open>
  Claim C2. For every container and entry \<open>(k, v)\<close>: if \<open>insert((k, v))\<close> returns a non-null
  iterator, then \<open>find(k)\<close> on the container it leaves returns a pointer to \<open>v\<close> (and
  \<open>findNode(k)\<close> returns the node of the iterator).
\<close>

theorem find_after_insert:
  assumes "insert_hamt hf h (k, v) = Some (Inr (Iterator (Some p), h'))"
  shows "find_hamt hf h' k = Inr (Some v) \<and> findNode hf h' k = Inr (Some (p, k, v))"
proof -
  from assms obtain t a where
    ie: "insertEntry hf (h_count h) (h_allocator h) (h_root h) (k, v) (h_seed h)
           (hash32 hf k (h_seed h)) 0 0 = Some (Inr (Some p, t, a))"
    and h': "h' = h\<lparr>h_count := h_count h + 1, h_root := t, h_allocator := a\<rparr>"
    by (auto simp: insert_hamt_def Let_def
        split: option.splits sum.splits prod.splits)
  from find_after_insertEntry_aux [OF ie]
  have "findNode_from hf k t (h_seed h) (hash32 hf k (h_seed h)) 0 = Inr (Some (p, k, v))"
    by simp
  with h' show ?thesis by (simp add: find_hamt_def findNode_def)
qed

theorem find_after_insert_witness:
  "insert_hamt IdentityFunction new_hamt (7, 1) =
     Some (Inr (Iterator (Some [0]),
       \<lparr>h_count = 1, h_root = Trie 1024 2 [Entry 7 1, Uninit], h_seed = default_seed,
        h_allocator = []\<rparr>)) \<and>
   find_hamt IdentityFunction
     \<lparr>h_count = 1, h_root = Trie 1024 2 [Entry 7 (1::int), Uninit], h_seed = default_seed,
      h_allocator = []\<rparr> 7 = Inr (Some 1)"
proof -
  have i: "insert_hamt IdentityFunction new_hamt (7, 1) =
     Some (Inr (Iterator (Some [0]),
       \<lparr>h_count = 1, h_root = Trie 1024 2 [Entry 7 1, Uninit], h_seed = default_seed,
        h_allocator = []\<rparr>))"
    by code_simp
  from i find_after_insert [OF i] show ?thesis by simp
qed

section \<open>Overwriting and the entry count\<close>

lemma leaf_count_update:
  assumes "leaf_count n = leaf_count (b ! i)" "i < length b"
  shows "leaf_count (Trie bm cap (b[i := n])) = leaf_count (Trie bm cap b)"
proof -
  have "map leaf_count (b[i := n]) = map leaf_count b"
    using assms by (simp add: map_update list_update_same_conv)
  then have "map leaf_count (take (popcount bm) (b[i := n])) =
      map leaf_count (take (popcount bm) b)"
    by (simp flip: take_map)
  then show ?thesis by simp
qed

lemma overwrite_insertEntry:
  assumes "findNode_from hf k t seed hash off = Inr (Some (p, k, v1))"
  shows "\<exists>t'. insertEntry hf cnt a t (k, v2) seed hash off lvl = Some (Inr (Some p, t', a)) \<and>
           leaf_count t' = leaf_count t"
  using assms
proof (induction hf k t seed hash off arbitrary: p lvl rule: findNode_from.induct)
  case (1 hf key bm cap b seed hash off)
  define slot where "slot = hash_slice hash off"
  define i where "i = physicalIndex bm slot"
  note eq = insertEntry.simps [of hf cnt a "Trie bm cap b" "(key, v2)" seed hash off lvl,
      unfolded node.case Let_def, folded slot_def, folded i_def]
  note find = "1.prems" [unfolded findNode_from.simps Let_def, folded slot_def, folded i_def]
  from find have taken: "logicalPositionTaken bm slot" and ne: "b \<noteq> []" and il: "i < length b"
    by (auto split: if_splits)
  show ?case
  proof (cases "b ! i")
    case Uninit
    with find taken ne il show ?thesis by simp
  next
    case (Entry k' v')
    with find taken ne il have k': "k' = key" and p: "p = [i]"
      by (auto split: if_splits)
    have "leaf_count (Trie bm cap (b[i := Entry key v2])) = leaf_count (Trie bm cap b)"
      by (rule leaf_count_update) (simp_all add: Entry il)
    with taken ne il Entry k' p show ?thesis
      unfolding eq by simp
  next
    case (Trie bm' cap' b')
    obtain s' h' o' where adv: "advance hf key (seed, hash, off) = (s', h', o')"
      by (cases "advance hf key (seed, hash, off)")
    from find taken ne il Trie adv obtain p0 where
      f: "findNode_from hf key (b ! i) s' h' o' = Inr (Some (p0, key, v1))" and p: "p = i # p0"
      by (auto split: sum.splits option.splits)
    from taken have nn: "\<not> \<not> logicalPositionTaken bm slot" by simp
    from il have nl: "\<not> length b \<le> i" by simp
    from "1.IH" [OF slot_def nn i_def ne nl Trie adv [symmetric] refl f, of "lvl + 1"]
    obtain n' where r: "insertEntry hf cnt a (b ! i) (key, v2) s' h' o' (lvl + 1) =
        Some (Inr (Some p0, n', a))" and lc: "leaf_count n' = leaf_count (b ! i)"
      by auto
    have "leaf_count (Trie bm cap (b[i := n'])) = leaf_count (Trie bm cap b)"
      using lc il by (rule leaf_count_update)
    with taken ne il Trie adv r p show ?thesis
      unfolding eq by simp
  qed
next
  case (2 hf key k v seed hash hash_offset)
  then show ?case by simp
next
  case (3 hf key seed hash hash_offset)
  then show ?case by simp
qed

text \<open>
  Inserting at a key that \<open>findNode\<close> finds always takes the overwrite path: it returns
  the node found, keeps the leaves, increments \<open>_count\<close> and stores the new value.
\<close>

lemma overwrite_increments_count:
  assumes "findNode hf h k = Inr (Some (p, k, v1))"
  shows "\<exists>h'. insert_hamt hf h (k, v2) = Some (Inr (Iterator (Some p), h')) \<and>
           size_hamt h' = size_hamt h + 1 \<and>
           leaf_count (h_root h') = leaf_count (h_root h) \<and>
           find_hamt hf h' k = Inr (Some v2)"
proof -
  from overwrite_insertEntry [OF assms [unfolded findNode_def],
      of "h_count h" "h_allocator h" v2 0]
  obtain t' where
    ie: "insertEntry hf (h_count h) (h_allocator h) (h_root h) (k, v2) (h_seed h)
           (hash32 hf k (h_seed h)) 0 0 = Some (Inr (Some p, t', h_allocator h))"
    and lc: "leaf_count t' = leaf_count (h_root h)"
    by blast
  from find_after_insertEntry_aux [OF ie]
  have f: "findNode_from hf k t' (h_seed h) (hash32 hf k (h_seed h)) 0 = Inr (Some (p, k, v2))"
    by simp
  let ?h' = "h\<lparr>h_count := h_count h + 1, h_root := t', h_allocator := h_allocator h\<rparr>"
  from ie have "insert_hamt hf h (k, v2) = Some (Inr (Iterator (Some p), ?h'))"
    by (simp add: insert_hamt_def Let_def)
  moreover have "size_hamt ?h' = size_hamt h + 1" by (simp add: size_hamt_def)
  moreover from lc have "leaf_count (h_root ?h') = leaf_count (h_root h)" by simp
  moreover from f have "find_hamt hf ?h' k = Inr (Some v2)"
    by (simp add: find_hamt_def findNode_def)
  ultimately show ?thesis by blast
qed

text \<open>
  Claim C1 at a failing input. The container holds \<open>(7, 1)\<close>; \<open>insert((7, 2))\<close> returns the
  leaf that \<open>findNode(7)\<close> found before and \<open>find(7)\<close> then yields 2, but \<open>size()\<close> has gone
  from 1 to 2.
\<close>

theorem overwrite_changes_size:
  "findNode IdentityFunction
     \<lparr>h_count = 1, h_root = Trie 1024 2 [Entry 7 (1::int), Uninit], h_seed = default_seed,
      h_allocator = []\<rparr> 7 = Inr (Some ([0], 7, 1)) \<and>
   insert_hamt IdentityFunction
     \<lparr>h_count = 1, h_root = Trie 1024 2 [Entry 7 (1::int), Uninit], h_seed = default_seed,
      h_allocator = []\<rparr> (7, 2) =
     Some (Inr (Iterator (Some [0]),
       \<lparr>h_count = 2, h_root = Trie 1024 2 [Entry 7 2, Uninit], h_seed = default_seed,
        h_allocator = []\<rparr>)) \<and>
   find_hamt IdentityFunction
     \<lparr>h_count = 2, h_root = Trie 1024 2 [Entry 7 (2::int), Uninit], h_seed = default_seed,
      h_allocator = []\<rparr> 7 = Inr (Some 2) \<and>
   size_hamt \<lparr>h_count = 1, h_root = Trie 1024 2 [Entry 7 (1::int), Uninit],
              h_seed = default_seed, h_allocator = []\<rparr> = 1 \<and>
   size_hamt \<lparr>h_count = 2, h_root = Trie 1024 2 [Entry 7 (2::int), Uninit],
              h_seed = default_seed, h_allocator = []\<rparr> = 2"
  by code_simp

text \<open>
  Claim C6 at a failing input. After the default construction and the insertions of
  \<open>(7, 1)\<close> and \<open>(7, 2)\<close>, \<open>size()\<close> is 2 while one leaf is reachable from the root.
\<close>

theorem size_is_not_leaf_count:
  "insert_all IdentityFunction new_hamt [(7, 1), (7, 2)] =
     Some (Inr \<lparr>h_count = 2, h_root = Trie 1024 2 [Entry 7 2, Uninit], h_seed = default_seed,
                h_allocator = []\<rparr>) \<and>
   size_hamt \<lparr>h_count = 2, h_root = Trie 1024 2 [Entry 7 (2::int), Uninit],
              h_seed = default_seed, h_allocator = []\<rparr> = 2 \<and>
   leaf_count (Trie 1024 2 [Entry (7::u64) (2::int), Uninit]) = 1"
  by code_simp

section \<open>Failed insertions\<close>

text \<open>
  Claim C5 at a failing input. With the constant hasher of the tests the container holds
  \<open>(1, 1)\<close> in a leaf of the root. \<open>insert((2, 2))\<close> returns null after the reseed
  collision and leaves \<open>size()\<close> at 1, but the old entry is not back in its slot: the cell
  of the root now holds a chain of five interior tries with the entry at the bottom.
\<close>

theorem collision_leaves_entry_displaced:
  "insert_all ConstantFunction new_hamt [(1, 1)] =
     Some (Inr \<lparr>h_count = 1, h_root = Trie 262144 2 [Entry 1 1, Uninit], h_seed = default_seed,
                h_allocator = []\<rparr>) \<and>
   insert_hamt ConstantFunction
     \<lparr>h_count = 1, h_root = Trie 262144 2 [Entry 1 (1::int), Uninit], h_seed = default_seed,
      h_allocator = []\<rparr> (2, 2) =
     Some (Inr (Iterator None,
       \<lparr>h_count = 1,
        h_root = Trie 262144 2
          [Trie 32768 2
            [Trie 4096 2
              [Trie 524288 2
                [Trie 64 2 [Trie 2048 2 [Entry 1 1, Uninit], Uninit], Uninit],
               Uninit],
             Uninit],
           Uninit],
        h_seed = default_seed, h_allocator = []\<rparr>))"
  by code_simp

section \<open>Determinism of insertion\<close>

lemma next_outcome_never_fails:
  assumes "never_fails a"
  shows "\<exists>a'. next_outcome a = (True, a') \<and> never_fails a'"
  using assms by (cases a) (auto simp: next_outcome_def never_fails_def)

lemma BitmapTrie_allocate_never_fails:
  assumes "never_fails a" "0 < n"
  shows "\<exists>a'. BitmapTrie_allocate a n = (Trie 0 n (replicate n Uninit), a') \<and> never_fails a'"
proof -
  from next_outcome_never_fails [OF assms(1)] obtain a' where
    "next_outcome a = (True, a')" "never_fails a'" by blast
  with assms(2) show ?thesis by (simp add: BitmapTrie_allocate_def allocate_def)
qed

lemma popcount_zero: "popcount 0 = 0"
  by (simp add: popcount_def)

lemma BitmapTrie_insertEntry_never_fails:
  assumes li: "li < 32" and free: "\<not> bit bm li" and len: "length b = cap"
    and fits: "popcount bm \<le> cap" and n: "0 < n" and nf: "never_fails a"
  shows "\<exists>cap' b' a'.
          BitmapTrie_insertEntry a (Trie bm cap b) li e n lvl =
            Inr (Some (physicalIndex bm li), Trie (bm OR 2 ^ li) cap' b', a') \<and>
          length b' = cap' \<and> Suc (popcount bm) \<le> cap' \<and> never_fails a' \<and>
          take (Suc (popcount bm)) b' =
            take (physicalIndex bm li) b @ Entry (fst e) (snd e) #
              drop (physicalIndex bm li) (take (popcount bm) b)"
proof (cases "popcount bm + 1 \<le> cap")
  case True
  from insertEntry_in_place [OF li free len True, of a e n lvl] nf True show ?thesis
    by (auto simp: push_bit_of_1)
next
  case False
  then have full: "cap < popcount bm + 1" by simp
  from next_outcome_never_fails [OF nf] obtain a' where
    no: "next_outcome a = (True, a')" and nf': "never_fails a'" by blast
  from insertEntry_grow [OF li free len fits full n, of lvl a e] no nf' show ?thesis
    by (auto simp: push_bit_of_1)
qed

text \<open>Nodes that are well formed and of the same structure.\<close>

lemma same_structure_Trie:
  "same_structure (Trie bm cap b) n \<longleftrightarrow>
     (\<exists>cap' b'. n = Trie bm cap' b' \<and>
        list_all2 same_structure (take (popcount bm) b) (take (popcount bm) b'))"
  by (cases n) auto

lemma live_cell:
  assumes "wf_node (Trie bm cap b)" "li < 32" "bit bm li"
  shows "physicalIndex bm li < popcount bm" "physicalIndex bm li < length b" "b \<noteq> []"
    "wf_node (b ! physicalIndex bm li)"
proof -
  show i: "physicalIndex bm li < popcount bm" using assms(2,3) by (rule physicalIndex_less)
  with assms(1) show l: "physicalIndex bm li < length b" by simp
  then show "b \<noteq> []" by auto
  from assms(1) have "list_all wf_node (take (popcount bm) b)" by simp
  with i l have "wf_node (take (popcount bm) b ! physicalIndex bm li)"
    by (simp add: list_all_length)
  with i show "wf_node (b ! physicalIndex bm li)" by simp
qed

lemma same_live_cell:
  assumes "list_all2 same_structure (take sz b) (take sz b2)" "i < sz" "i < length b"
  shows "same_structure (b ! i) (b2 ! i)" "i < length b2"
proof -
  from assms(1) have l: "length (take sz b) = length (take sz b2)" by (rule list_all2_lengthD)
  with assms(2,3) show "i < length b2" by simp
  from assms(2,3) have "i < length (take sz b)" by simp
  with assms(1) have "same_structure (take sz b ! i) (take sz b2 ! i)"
    by (rule list_all2_nthD)
  with assms(2) show "same_structure (b ! i) (b2 ! i)" by simp
qed

lemma update_live_cell:
  assumes "wf_node (Trie bm cap b)" "wf_node (Trie bm cap2 b2)"
    and "list_all2 same_structure (take (popcount bm) b) (take (popcount bm) b2)"
    and "wf_node n" "wf_node n2" "same_structure n n2"
  shows "wf_node (Trie bm cap (b[i := n]))" "wf_node (Trie bm cap2 (b2[i := n2]))"
    "same_structure (Trie bm cap (b[i := n])) (Trie bm cap2 (b2[i := n2]))"
proof -
  have u: "list_all wf_node (take sz (c[i := m]))"
    if "list_all wf_node (take sz c)" "wf_node m" for sz c and m :: "('a, 'b) node"
    using that by (auto simp: list_all_iff take_update_swap dest!: set_update_subset_insert [THEN subsetD])
  from assms(1,4) show "wf_node (Trie bm cap (b[i := n]))" by (simp add: u)
  from assms(2,5) show "wf_node (Trie bm cap2 (b2[i := n2]))" by (simp add: u)
  from assms(3,6) show "same_structure (Trie bm cap (b[i := n])) (Trie bm cap2 (b2[i := n2]))"
    by (simp add: take_update_swap list_all2_update_cong)
qed

lemma insert_live_wf:
  assumes "list_all wf_node live"
  shows "list_all wf_node (take i live @ Entry k v # drop i live)"
  using assms by (auto simp: list_all_iff dest: in_set_takeD in_set_dropD)

lemma insert_live_same:
  assumes "list_all2 same_structure live live2"
  shows "list_all2 same_structure (take i live @ Entry k v # drop i live)
       (take i live2 @ Entry k v # drop i live2)"
  using assms
  by (intro list_all2_appendI list_all2_takeI list.rel_intros list_all2_dropI) simp_all

lemma placed_related:
  assumes wf1: "wf_node (Trie bm cap b)" and wf2: "wf_node (Trie bm cap2 b2)"
    and ss: "list_all2 same_structure (take (popcount bm) b) (take (popcount bm) b2)"
    and li: "li < 32" and free: "\<not> bit bm li"
    and l1: "length b' = cap'" and c1: "Suc (popcount bm) \<le> cap'"
    and t1: "take (Suc (popcount bm)) b' =
            take (physicalIndex bm li) b @ Entry k v #
              drop (physicalIndex bm li) (take (popcount bm) b)"
    and l2: "length b2' = cap2'" and c2: "Suc (popcount bm) \<le> cap2'"
    and t2: "take (Suc (popcount bm)) b2' =
            take (physicalIndex bm li) b2 @ Entry k v #
              drop (physicalIndex bm li) (take (popcount bm) b2)"
  shows "wf_node (Trie (bm OR 2 ^ li) cap' b')" "wf_node (Trie (bm OR 2 ^ li) cap2' b2')"
    "same_structure (Trie (bm OR 2 ^ li) cap' b') (Trie (bm OR 2 ^ li) cap2' b2')"
proof -
  let ?i = "physicalIndex bm li" and ?sz = "popcount bm"
  have pc: "popcount (bm OR 2 ^ li) = Suc ?sz" using li free by (rule popcount_set_bit)
  have isz: "?i \<le> ?sz" using li by (rule physicalIndex_le)
  then have tk: "take ?i c = take ?i (take ?sz c)" for c :: "('a, 'b) node list"
    by (simp add: min_def)
  from wf1 have w1: "list_all wf_node (take ?sz b)" by simp
  from wf2 have w2: "list_all wf_node (take ?sz b2)" by simp
  show "wf_node (Trie (bm OR 2 ^ li) cap' b')"
    using l1 c1 insert_live_wf [OF w1, of ?i k v] by (simp add: pc t1 tk [of b])
  show "wf_node (Trie (bm OR 2 ^ li) cap2' b2')"
    using l2 c2 insert_live_wf [OF w2, of ?i k v] by (simp add: pc t2 tk [of b2])
  show "same_structure (Trie (bm OR 2 ^ li) cap' b') (Trie (bm OR 2 ^ li) cap2' b2')"
    using insert_live_same [OF ss, of ?i k v] by (simp add: pc t1 t2 tk [of b] tk [of b2])
qed


lemma insertEntry_lockstep:
  assumes major: "insertEntry hf0 cnt0 a0 t0 e0 seed0 hash0 off0 lvl0 = Some r0"
  shows "\<forall>cnt2 a2 t2.
      wf_trie t0 \<and> wf_trie t2 \<and> same_structure t0 t2 \<and> never_fails a0 \<and> never_fails a2 \<longrightarrow>
      (\<exists>p t' a' t2' a2'. r0 = Inr (p, t', a') \<and>
         insertEntry hf0 cnt2 a2 t2 e0 seed0 hash0 off0 lvl0 = Some (Inr (p, t2', a2')) \<and>
         wf_trie t' \<and> wf_trie t2' \<and> same_structure t' t2' \<and>
         never_fails a' \<and> never_fails a2')"
proof (rule insertEntry.raw_induct [where P = "\<lambda>hf cnt a t e seed hash off lvl r.
    \<forall>cnt2 a2 t2.
      wf_trie t \<and> wf_trie t2 \<and> same_structure t t2 \<and> never_fails a \<and> never_fails a2 \<longrightarrow>
      (\<exists>p t' a' t2' a2'. r = Inr (p, t', a') \<and>
         insertEntry hf cnt2 a2 t2 e seed hash off lvl = Some (Inr (p, t2', a2')) \<and>
         wf_trie t' \<and> wf_trie t2' \<and> same_structure t' t2' \<and>
         never_fails a' \<and> never_fails a2')", OF _ major], goal_cases)
  case (1 ins hf cnt a t e seed hash off lvl r)
  note IH = 1(1) [rule_format] and body = 1(2)
  show ?case
  proof (intro allI impI, elim conjE)
    fix cnt2 a2 and t2 :: "('a, 'b) node"
    assume wt: "wf_trie t" and wt2: "wf_trie t2" and st: "same_structure t t2"
      and nf: "never_fails a" and nf2: "never_fails a2"
    from wt obtain bm cap b where t: "t = Trie bm cap b"
      by (cases t) (simp_all add: wf_trie_def)
    from st [unfolded t same_structure_Trie] obtain cap2 b2 where t2: "t2 = Trie bm cap2 b2"
      and ss: "list_all2 same_structure (take (popcount bm) b) (take (popcount bm) b2)"
      by blast
    from wt t have w: "wf_node (Trie bm cap b)" by (simp add: wf_trie_def)
    from wt2 t2 have w2: "wf_node (Trie bm cap2 b2)" by (simp add: wf_trie_def)
    define slot where "slot = hash_slice hash off"
    define i where "i = physicalIndex bm slot"
    have slot32: "slot < 32" unfolding slot_def by (rule hash_slice_less)
    note eq2 = insertEntry.simps [of hf cnt2 a2 "Trie bm cap2 b2" e seed hash off lvl,
        unfolded node.case Let_def, folded slot_def, folded i_def]
    note body' = body [unfolded t node.case Let_def, folded slot_def, folded i_def]
    show "\<exists>p t' a' t2' a2'. r = Inr (p, t', a') \<and>
         insertEntry hf cnt2 a2 t2 e seed hash off lvl = Some (Inr (p, t2', a2')) \<and>
         wf_trie t' \<and> wf_trie t2' \<and> same_structure t' t2' \<and>
         never_fails a' \<and> never_fails a2'"
    proof (cases "logicalPositionTaken bm slot")
      case False
      then have free: "\<not> bit bm slot" by (simp add: taken_iff_bit)
      from w have len: "length b = cap" and fits: "popcount bm \<le> cap" by simp_all
      from w2 have len2: "length b2 = cap2" and fits2: "popcount bm \<le> cap2" by simp_all
      from BitmapTrie_insertEntry_never_fails [OF slot32 free len fits _ nf, of "cnt + 1" e lvl]
      obtain cap' b' a' where
        r1: "BitmapTrie_insertEntry a (Trie bm cap b) slot e (cnt + 1) lvl =
            Inr (Some i, Trie (bm OR 2 ^ slot) cap' b', a')"
        and l1: "length b' = cap'" and c1: "Suc (popcount bm) \<le> cap'" and nf': "never_fails a'"
        and tk1: "take (Suc (popcount bm)) b' =
            take i b @ Entry (fst e) (snd e) # drop i (take (popcount bm) b)"
        unfolding i_def by auto
      from BitmapTrie_insertEntry_never_fails [OF slot32 free len2 fits2 _ nf2, of "cnt2 + 1" e lvl]
      obtain cap2' b2' a2' where
        r2: "BitmapTrie_insertEntry a2 (Trie bm cap2 b2) slot e (cnt2 + 1) lvl =
            Inr (Some i, Trie (bm OR 2 ^ slot) cap2' b2', a2')"
        and l2: "length b2' = cap2'" and c2: "Suc (popcount bm) \<le> cap2'"
        and nf2': "never_fails a2'"
        and tk2: "take (Suc (popcount bm)) b2' =
            take i b2 @ Entry (fst e) (snd e) # drop i (take (popcount bm) b2)"
        unfolding i_def by auto
      note pr = placed_related [OF w w2 ss slot32 free l1 c1 tk1 [unfolded i_def] l2 c2
          tk2 [unfolded i_def]]
      from body' False r1 have "r = Inr (Some [i], Trie (bm OR 2 ^ slot) cap' b', a')"
        by simp
      moreover from False r2
      have "insertEntry hf cnt2 a2 t2 e seed hash off lvl =
          Some (Inr (Some [i], Trie (bm OR 2 ^ slot) cap2' b2', a2'))"
        unfolding t2 eq2 by simp
      ultimately show ?thesis using pr nf' nf2' by (simp add: wf_trie_def)
    next
      case True
      then have bit: "bit bm slot" by (simp add: taken_iff_bit)
      note lc = live_cell [OF w slot32 bit, folded i_def]
      note lc2 = live_cell [OF w2 slot32 bit, folded i_def]
      note sl = same_live_cell [OF ss lc(1,2)]
      note upd = update_live_cell [OF w w2 ss, of _ _ i]
      obtain s' h' o' where adv: "advance hf (fst e) (seed, hash, off) = (s', h', o')"
        by (cases "advance hf (fst e) (seed, hash, off)")
      show ?thesis
      proof (cases "b ! i")
        case Uninit
        with lc(4) show ?thesis by simp
      next
        case (Trie bm' cap' b')
        with sl(1) have "same_structure (Trie bm' cap' b') (b2 ! i)" by simp
        then obtain cap2' b2' where c2: "b2 ! i = Trie bm' cap2' b2'"
          unfolding same_structure_Trie by blast
        from body' True lc Trie adv
        obtain r1 where r1: "ins hf cnt a (b ! i) e s' h' o' (lvl + 1) = Some r1"
          and k: "(case r1 of Inl e \<Rightarrow> Some (Inl e)
                   | Inr (None, n', a') \<Rightarrow> Some (Inr (None, Trie bm cap (b[i := n']), a'))
                   | Inr (Some p, n', a') \<Rightarrow>
                       Some (Inr (Some (i # p), Trie bm cap (b[i := n']), a'))) = Some r"
          by (cases "ins hf cnt a (b ! i) e s' h' o' (lvl + 1)") auto
        have "wf_trie (b ! i)" "wf_trie (b2 ! i)"
          using lc(4) lc2(4) Trie c2 by (simp_all add: wf_trie_def)
        from IH [OF r1, of "b2 ! i" a2 cnt2] this sl(1) nf nf2
        obtain p n' a' n2' a2' where r1': "r1 = Inr (p, n', a')"
          and i2: "insertEntry hf cnt2 a2 (b2 ! i) e s' h' o' (lvl + 1) = Some (Inr (p, n2', a2'))"
          and rel: "wf_trie n'" "wf_trie n2'" "same_structure n' n2'"
          and nfs: "never_fails a'" "never_fails a2'"
          by blast
        from rel have wn: "wf_node n'" "wf_node n2'" by (simp_all add: wf_trie_def)
        note u = upd [OF wn rel(3)]
        show ?thesis
        proof (cases p)
          case None
          with k r1' have "r = Inr (None, Trie bm cap (b[i := n']), a')" by simp
          moreover from True lc2 c2 adv i2 None
          have "insertEntry hf cnt2 a2 t2 e seed hash off lvl =
              Some (Inr (None, Trie bm cap2 (b2[i := n2']), a2'))"
            unfolding t2 eq2 by simp
          ultimately show ?thesis using u nfs by (simp add: wf_trie_def)
        next
          case (Some p0)
          with k r1' have "r = Inr (Some (i # p0), Trie bm cap (b[i := n']), a')" by simp
          moreover from True lc2 c2 adv i2 Some
          have "insertEntry hf cnt2 a2 t2 e seed hash off lvl =
              Some (Inr (Some (i # p0), Trie bm cap2 (b2[i := n2']), a2'))"
            unfolding t2 eq2 by simp
          ultimately show ?thesis using u nfs by (simp add: wf_trie_def)
        qed
      next
        case (Entry old_key old_value)
        with sl(1) have c2: "b2 ! i = Entry old_key old_value" by simp
        show ?thesis
        proof (cases "old_key = fst e")
          case same: True
          note u = upd [of "Entry old_key (snd e)" "Entry old_key (snd e)"]
          from body' True lc Entry same
          have "r = Inr (Some [i], Trie bm cap (b[i := Entry old_key (snd e)]), a)" by simp
          moreover from True lc2 c2 same
          have "insertEntry hf cnt2 a2 t2 e seed hash off lvl =
              Some (Inr (Some [i], Trie bm cap2 (b2[i := Entry old_key (snd e)]), a2))"
            unfolding t2 eq2 by simp
          ultimately show ?thesis using u nf nf2 by (simp add: wf_trie_def)
        next
          case differ: False
          show ?thesis
          proof (cases "\<not> off < 25 \<and> h' = hash32 hf old_key s'")
            case collision: True
            from body' True lc Entry differ adv collision
            have "r = Inr (None, Trie bm cap b, a)" by simp
            moreover from True lc2 c2 differ adv collision
            have "insertEntry hf cnt2 a2 t2 e seed hash off lvl =
                Some (Inr (None, Trie bm cap2 b2, a2))"
              unfolding t2 eq2 by simp
            ultimately show ?thesis using wt wt2 st nf nf2 t t2 by simp
          next
            case False
            define new_trie :: "('a, 'b) node" where "new_trie = Trie 0 2 (replicate 2 Uninit)"
            from BitmapTrie_allocate_never_fails [OF nf, of 2] obtain a1 where
              al: "BitmapTrie_allocate a 2 = (new_trie, a1)" and nf1: "never_fails a1"
              unfolding new_trie_def by auto
            from BitmapTrie_allocate_never_fails [OF nf2, of 2] obtain a12 where
              al2: "BitmapTrie_allocate a2 2 = (new_trie, a12)" and nf12: "never_fails a12"
              unfolding new_trie_def by auto
            have wn: "wf_trie new_trie" "same_structure new_trie new_trie"
              by (simp_all add: new_trie_def wf_trie_def popcount_zero)
            let ?k1 = "\<lambda>r1. case r1 of Inl e \<Rightarrow> Some (Inl e)
                  | Inr (None, t1, a2) \<Rightarrow>
                      Some (Inr (None, Trie bm cap (b[i := Entry old_key old_value]), a2))
                  | Inr (Some replaced_node, t1, a2) \<Rightarrow>
                      Option.bind (ins hf cnt a2 t1 e s' h' o' (lvl + 1))
                        (\<lambda>r2. case r2 of Inl e \<Rightarrow> Some (Inl e)
                           | Inr (None, t2, a3) \<Rightarrow>
                               Some (Inr (None, Trie bm cap (b[i := t2]), a3))
                           | Inr (Some p, t2, a3) \<Rightarrow>
                               Some (Inr (Some (i # p), Trie bm cap (b[i := t2]), a3)))"
            from body' True lc Entry differ adv False al
            have "Option.bind
                (ins hf cnt a1 new_trie (old_key, old_value) s' (hash32 hf old_key s') o' (lvl + 1))
                ?k1 = Some r"
              by auto
            then obtain r1 where
              r1: "ins hf cnt a1 new_trie (old_key, old_value) s' (hash32 hf old_key s') o'
                     (lvl + 1) = Some r1"
              and k1: "?k1 r1 = Some r"
              by (cases "ins hf cnt a1 new_trie (old_key, old_value) s' (hash32 hf old_key s') o'
                     (lvl + 1)") auto
            from IH [OF r1, of new_trie a12 cnt2] wn nf1 nf12
            obtain p1 t1 a' t12 a2' where r1': "r1 = Inr (p1, t1, a')"
              and i1: "insertEntry hf cnt2 a12 new_trie (old_key, old_value) s'
                  (hash32 hf old_key s') o' (lvl + 1) = Some (Inr (p1, t12, a2'))"
              and rel1: "wf_trie t1" "wf_trie t12" "same_structure t1 t12"
              and nfs1: "never_fails a'" "never_fails a2'"
              by blast
            show ?thesis
            proof (cases p1)
              case None
              note u = upd [of "Entry old_key old_value" "Entry old_key old_value"]
              from k1 r1' None
              have "r = Inr (None, Trie bm cap (b[i := Entry old_key old_value]), a')" by simp
              moreover from True lc2 c2 differ adv False al2 i1 None
              have "insertEntry hf cnt2 a2 t2 e seed hash off lvl =
                  Some (Inr (None, Trie bm cap2 (b2[i := Entry old_key old_value]), a2'))"
                unfolding t2 eq2 by auto
              ultimately show ?thesis using u nfs1 by (simp add: wf_trie_def)
            next
              case (Some replaced_node)
              let ?k2 = "\<lambda>r2. case r2 of Inl e \<Rightarrow> Some (Inl e)
                           | Inr (None, t2, a3) \<Rightarrow>
                               Some (Inr (None, Trie bm cap (b[i := t2]), a3))
                           | Inr (Some p, t2, a3) \<Rightarrow>
                               Some (Inr (Some (i # p), Trie bm cap (b[i := t2]), a3))"
              from k1 r1' Some
              have "Option.bind (ins hf cnt a' t1 e s' h' o' (lvl + 1)) ?k2 = Some r" by simp
              then obtain r2 where r2: "ins hf cnt a' t1 e s' h' o' (lvl + 1) = Some r2"
                and k2: "?k2 r2 = Some r"
                by (cases "ins hf cnt a' t1 e s' h' o' (lvl + 1)") auto
              from IH [OF r2, of t12 a2' cnt2] rel1 nfs1
              obtain p n' a'' n2' a2'' where r2': "r2 = Inr (p, n', a'')"
                and i2: "insertEntry hf cnt2 a2' t12 e s' h' o' (lvl + 1) =
                    Some (Inr (p, n2', a2''))"
                and rel: "wf_trie n'" "wf_trie n2'" "same_structure n' n2'"
                and nfs: "never_fails a''" "never_fails a2''"
                by blast
              from rel have wn': "wf_node n'" "wf_node n2'" by (simp_all add: wf_trie_def)
              note u = upd [OF wn' rel(3)]
              show ?thesis
              proof (cases p)
                case None
                with k2 r2' have "r = Inr (None, Trie bm cap (b[i := n']), a'')" by simp
                moreover from True lc2 c2 differ adv False al2 i1 Some i2 None
                have "insertEntry hf cnt2 a2 t2 e seed hash off lvl =
                    Some (Inr (None, Trie bm cap2 (b2[i := n2']), a2''))"
                  unfolding t2 eq2 by auto
                ultimately show ?thesis using u nfs by (simp add: wf_trie_def)
              next
                case (Some p0)
                with k2 r2' have "r = Inr (Some (i # p0), Trie bm cap (b[i := n']), a'')"
                  by simp
                moreover from True lc2 c2 differ adv False al2 i1 \<open>p1 = Some replaced_node\<close>
                  i2 Some
                have "insertEntry hf cnt2 a2 t2 e seed hash off lvl =
                    Some (Inr (Some (i # p0), Trie bm cap2 (b2[i := n2']), a2''))"
                  unfolding t2 eq2 by auto
                ultimately show ?thesis using u nfs by (simp add: wf_trie_def)
              qed
            qed
          qed
        qed
      qed
    qed
  qed
qed


lemma same_structure_sym: "same_structure n m \<Longrightarrow> same_structure m n"
proof (induction n arbitrary: m)
  case Uninit
  then show ?case by simp
next
  case (Entry k v)
  then show ?case by simp
next
  case (Trie bm cap b)
  from Trie.prems obtain cap' b' where m: "m = Trie bm cap' b'"
    and ss: "list_all2 same_structure (take (popcount bm) b) (take (popcount bm) b')"
    unfolding same_structure_Trie by blast
  have "list_all2 same_structure (take (popcount bm) b') (take (popcount bm) b)"
  proof (rule list_all2_all_nthI)
    show "length (take (popcount bm) b') = length (take (popcount bm) b)"
      using list_all2_lengthD [OF ss] by simp
  next
    fix j assume j: "j < length (take (popcount bm) b')"
    with list_all2_lengthD [OF ss] have jb: "j < length (take (popcount bm) b)" by simp
    then have "take (popcount bm) b ! j \<in> set b"
      by (metis in_set_takeD nth_mem)
    moreover from ss jb
    have "same_structure (take (popcount bm) b ! j) (take (popcount bm) b' ! j)"
      by (rule list_all2_nthD)
    ultimately show "same_structure (take (popcount bm) b' ! j) (take (popcount bm) b ! j)"
      by (rule Trie.IH)
  qed
  with m show ?case by simp
qed

lemma insert_hamt_lockstep:
  assumes "wf_trie (h_root h1)" "wf_trie (h_root h2)" "same_structure (h_root h1) (h_root h2)"
    and "h_seed h1 = h_seed h2" "never_fails (h_allocator h1)" "never_fails (h_allocator h2)"
    and "insert_hamt hf h1 e = Some r"
  shows "\<exists>it h1' h2'. r = Inr (it, h1') \<and> insert_hamt hf h2 e = Some (Inr (it, h2')) \<and>
           wf_trie (h_root h1') \<and> wf_trie (h_root h2') \<and>
           same_structure (h_root h1') (h_root h2') \<and> h_seed h1' = h_seed h2' \<and>
           never_fails (h_allocator h1') \<and> never_fails (h_allocator h2') \<and>
           h_seed h1' = h_seed h1 \<and> h_count h1' - h_count h1 = h_count h2' - h_count h2"
proof -
  let ?call = "\<lambda>h. insertEntry hf (h_count h) (h_allocator h) (h_root h) e (h_seed h)
      (hash32 hf (fst e) (h_seed h)) 0 0"
  from assms(7) obtain r0 where r0: "?call h1 = Some r0"
    by (cases "?call h1") (simp_all add: insert_hamt_def Let_def)
  from insertEntry_lockstep [OF r0, rule_format, of "h_root h2" "h_allocator h2" "h_count h2"]
    assms(1-6)
  obtain p t' a' t2' a2' where r0': "r0 = Inr (p, t', a')"
    and c2: "?call h2 = Some (Inr (p, t2', a2'))"
    and rel: "wf_trie t'" "wf_trie t2'" "same_structure t' t2'" "never_fails a'" "never_fails a2'"
    by auto
  show ?thesis
  proof (cases p)
    case None
    with assms(7) r0 r0' have "r = Inr (Iterator None, h1\<lparr>h_root := t', h_allocator := a'\<rparr>)"
      by (simp add: insert_hamt_def Let_def)
    moreover from c2 None
    have "insert_hamt hf h2 e = Some (Inr (Iterator None, h2\<lparr>h_root := t2', h_allocator := a2'\<rparr>))"
      by (simp add: insert_hamt_def Let_def)
    ultimately show ?thesis using rel assms(4) by simp
  next
    case (Some n)
    with assms(7) r0 r0' have "r = Inr (Iterator (Some n),
        h1\<lparr>h_count := h_count h1 + 1, h_root := t', h_allocator := a'\<rparr>)"
      by (simp add: insert_hamt_def Let_def)
    moreover from c2 Some
    have "insert_hamt hf h2 e = Some (Inr (Iterator (Some n),
        h2\<lparr>h_count := h_count h2 + 1, h_root := t2', h_allocator := a2'\<rparr>))"
      by (simp add: insert_hamt_def Let_def)
    ultimately show ?thesis using rel assms(4) by simp
  qed
qed

lemma insert_all_lockstep:
  assumes "wf_trie (h_root h1)" "wf_trie (h_root h2)" "same_structure (h_root h1) (h_root h2)"
    and "h_seed h1 = h_seed h2" "never_fails (h_allocator h1)" "never_fails (h_allocator h2)"
    and "insert_all hf h1 es = Some r"
  shows "\<exists>h1' h2'. r = Inr h1' \<and> insert_all hf h2 es = Some (Inr h2') \<and>
           wf_trie (h_root h1') \<and> wf_trie (h_root h2') \<and>
           same_structure (h_root h1') (h_root h2')"
  using assms
proof (induction es arbitrary: h1 h2)
  case Nil
  then show ?case by auto
next
  case (Cons e es)
  from Cons.prems(7) obtain r1 where r1: "insert_hamt hf h1 e = Some r1"
    by (cases "insert_hamt hf h1 e") simp_all
  from insert_hamt_lockstep [OF Cons.prems(1-6) r1]
  obtain it h1' h2' where r1': "r1 = Inr (it, h1')"
    and i2: "insert_hamt hf h2 e = Some (Inr (it, h2'))"
    and rel: "wf_trie (h_root h1')" "wf_trie (h_root h2')"
      "same_structure (h_root h1') (h_root h2')" "h_seed h1' = h_seed h2'"
      "never_fails (h_allocator h1')" "never_fails (h_allocator h2')"
    by blast
  from Cons.prems(7) r1 r1' have "insert_all hf h1' es = Some r" by simp
  from Cons.IH [OF rel this] i2 show ?case by simp
qed

lemma constructed:
  assumes "HashArrayMappedTrie n a = Inr h" "never_fails a"
  shows "wf_trie (h_root h) \<and> h_seed h = default_seed \<and> never_fails (h_allocator h) \<and>
         bitmap (h_root h) = 0 \<and> h_count h = 0"
proof -
  have "1 \<le> (if n > 0 then n else 1)" by simp
  from oracle_capacity [OF _ _ this, of 1 0] obtain c where
    c: "hamt_trie_allocation_size 1 (if n > 0 then n else 1) 0 = Inr c" and c1: "1 \<le> c"
    by auto
  from BitmapTrie_allocate_never_fails [OF assms(2), of c] c1 obtain a' where
    "BitmapTrie_allocate a c = (Trie 0 c (replicate c Uninit) :: ('a, 'b) node, a')"
    and "never_fails a'" by auto
  with assms(1) c c1 show ?thesis
    by (auto simp: HashArrayMappedTrie_def wf_trie_def popcount_zero)
qed

text \<open>
  Claim C9, as stated, makes the structure depend on the seed, the hasher, the equality
  and the insertions only. It also depends on the allocator: of two containers
  constructed alike, the one whose allocator returns null when the root has to grow
  keeps two entries where the other holds three.
\<close>

theorem allocator_failure_counterexample:
  "HashArrayMappedTrie 1 [] = Inr new_hamt \<and>
   HashArrayMappedTrie 1 [True, False] = Inr (new_hamt\<lparr>h_allocator := [False]\<rparr>) \<and>
   insert_all IdentityFunction new_hamt [(0, 0), (1, 1), (2, 2)] =
     Some (Inr \<lparr>h_count = 3,
                h_root = Trie 45056 5 [Entry 1 1, Entry 0 0, Entry 2 2, Uninit, Uninit],
                h_seed = default_seed, h_allocator = []\<rparr>) \<and>
   insert_all IdentityFunction (new_hamt\<lparr>h_allocator := [False]\<rparr>) [(0, 0), (1, 1), (2, 2)] =
     Some (Inr \<lparr>h_count = 2, h_root = Trie 12288 2 [Entry 1 1, Entry 0 0],
                h_seed = default_seed, h_allocator = []\<rparr>) \<and>
   \<not> same_structure
       (Trie 45056 5 [Entry (1::u64) (1::int), Entry 0 0, Entry 2 2, Uninit, Uninit])
       (Trie 12288 2 [Entry 1 1, Entry 0 0])"
  by code_simp

text \<open>
  Claim C9, amended. Insertion is deterministic when no allocation fails: two containers
  with the same seed and hasher that satisfy the data model and are structurally
  identical (as two freshly constructed ones are, whatever their size hints and
  capacities), whose allocators never return null, and that are given the same sequence
  of insertions, are structurally identical afterwards: the same bitmaps, the same child
  orderings, the same entries at the same positions. (Either both sequences return, or
  neither does.)
\<close>

theorem insertion_deterministic:
  assumes "wf_trie (h_root h1)" "wf_trie (h_root h2)" "same_structure (h_root h1) (h_root h2)"
    and "h_seed h1 = h_seed h2" "never_fails (h_allocator h1)" "never_fails (h_allocator h2)"
  shows "(insert_all hf h1 es = None \<and> insert_all hf h2 es = None) \<or>
         (\<exists>h1' h2'. insert_all hf h1 es = Some (Inr h1') \<and>
            insert_all hf h2 es = Some (Inr h2') \<and>
            same_structure (h_root h1') (h_root h2'))"
proof (cases "insert_all hf h1 es")
  case (Some r)
  from insert_all_lockstep [OF assms Some] Some show ?thesis by auto
next
  case None
  show ?thesis
  proof (cases "insert_all hf h2 es")
    case (Some r2)
    from insert_all_lockstep [OF assms(2,1) same_structure_sym [OF assms(3)] assms(4) [symmetric]
        assms(6,5) Some] None
    show ?thesis by auto
  next
    case n2: None
    with None show ?thesis by simp
  qed
qed


theorem insertion_deterministic_witness:
  "HashArrayMappedTrie 1 [] = Inr new_hamt \<and>
   HashArrayMappedTrie 64 [True] =
     Inr \<lparr>h_count = 0, h_root = Trie 0 29 (replicate 29 Uninit) :: (u64, int) node,
          h_seed = default_seed, h_allocator = []\<rparr> \<and>
   insert_all IdentityFunction new_hamt [(0, 0), (1, 1), (2, 2)] =
     Some (Inr \<lparr>h_count = 3,
                h_root = Trie 45056 5 [Entry 1 1, Entry 0 0, Entry 2 2, Uninit, Uninit],
                h_seed = default_seed, h_allocator = []\<rparr>) \<and>
   insert_all IdentityFunction
     \<lparr>h_count = 0, h_root = Trie 0 29 (replicate 29 Uninit) :: (u64, int) node,
      h_seed = default_seed, h_allocator = []\<rparr> [(0, 0), (1, 1), (2, 2)] =
     Some (Inr \<lparr>h_count = 3,
                h_root = Trie 45056 29 ([Entry 1 1, Entry 0 0, Entry 2 2] @ replicate 26 Uninit),
                h_seed = default_seed, h_allocator = []\<rparr>) \<and>
   same_structure
     (Trie 45056 5 [Entry (1::u64) (1::int), Entry 0 0, Entry 2 2, Uninit, Uninit])
     (Trie 45056 29 ([Entry 1 1, Entry 0 0, Entry 2 2] @ replicate 26 Uninit))"
proof -
  let ?h2 = "\<lparr>h_count = 0, h_root = Trie 0 29 (replicate 29 Uninit) :: (u64, int) node,
      h_seed = default_seed, h_allocator = []\<rparr>"
  have c: "HashArrayMappedTrie 1 [] = Inr new_hamt" "HashArrayMappedTrie 64 [True] = Inr ?h2"
    by code_simp+
  have h: "wf_trie (h_root new_hamt)" "wf_trie (h_root ?h2)"
    "same_structure (h_root new_hamt) (h_root ?h2)" "h_seed new_hamt = h_seed ?h2"
    "never_fails (h_allocator new_hamt)" "never_fails (h_allocator ?h2)"
    by code_simp+
  have v: "insert_all IdentityFunction new_hamt [(0, 0), (1, 1), (2, 2)] =
     Some (Inr \<lparr>h_count = 3,
                h_root = Trie 45056 5 [Entry 1 1, Entry 0 0, Entry 2 2, Uninit, Uninit],
                h_seed = default_seed, h_allocator = []\<rparr>)"
    "insert_all IdentityFunction ?h2 [(0, 0), (1, 1), (2, 2)] =
     Some (Inr \<lparr>h_count = 3,
                h_root = Trie 45056 29 ([Entry 1 1, Entry 0 0, Entry 2 2] @ replicate 26 Uninit),
                h_seed = default_seed, h_allocator = []\<rparr>)"
    by code_simp+
  from insertion_deterministic [OF h, of IdentityFunction "[(0, 0), (1, 1), (2, 2)]"] v
  have "same_structure
     (Trie 45056 5 [Entry (1::u64) (1::int), Entry 0 0, Entry 2 2, Uninit, Uninit])
     (Trie 45056 29 ([Entry 1 1, Entry 0 0, Entry 2 2] @ replicate 26 Uninit))"
    by simp
  with c v show ?thesis by (intro conjI)
qed

section \<open>Insertions that do not return\<close>

text \<open>
  The slices at offsets 0 to 25 read bits 0 to 29 of a hash, and reseeding XORs both
  hashes with the same seed. Two keys whose 32-bit hashes differ in bits 30 and 31 only
  therefore share every slot under every seed, and are never taken for a collision:
  each split puts the old entry into a new trie and finds it again in the slot of the
  new one. \<open>insertEntry\<close> does not return then, which is why it is modelled as a partial
  function. The first conjunct below is what the re-insertion of the old entry into the
  fresh trie returns; the second excludes a result in that situation.
\<close>

lemma physicalIndex_single: "n < 32 \<Longrightarrow> physicalIndex (2 ^ n) n = 0"
proof -
  assume n: "n < 32"
  have "filter (bit (2 ^ n :: u32)) [0..<n] = []"
    by (auto simp: filter_empty_conv bit_exp_iff)
  with n show ?thesis by (simp add: physicalIndex_filter)
qed

lemma taken_single: "n < 32 \<Longrightarrow> logicalPositionTaken (2 ^ n) n"
  by (simp add: taken_iff_bit bit_exp_iff)

lemma insertEntry_diverges_aux:
  assumes major: "insertEntry hf0 cnt0 a0 t0 e0 seed0 hash0 off0 lvl0 = Some r0"
  shows "(t0 = Trie 0 2 (replicate 2 Uninit) \<longrightarrow>
            (\<exists>b'. r0 = Inr (Some [0], Trie (2 ^ hash_slice hash0 off0) 2 b', a0) \<and>
               length b' = 2 \<and> b' ! 0 = Entry (fst e0) (snd e0))) \<and>
         \<not> (\<exists>bm cap b old_key old_value.
               never_fails a0 \<and> t0 = Trie bm cap b \<and> hash0 = hash32 hf0 (fst e0) seed0 \<and>
               off0 \<le> 25 \<and> 5 dvd off0 \<and>
               logicalPositionTaken bm (hash_slice hash0 off0) \<and>
               physicalIndex bm (hash_slice hash0 off0) < length b \<and>
               b ! physicalIndex bm (hash_slice hash0 off0) = Entry old_key old_value \<and>
               (\<forall>seed off. off \<le> 25 \<longrightarrow> hash_slice (hash32 hf0 old_key seed) off =
                   hash_slice (hash32 hf0 (fst e0) seed) off) \<and>
               (\<forall>seed. hash32 hf0 old_key seed \<noteq> hash32 hf0 (fst e0) seed))"
proof (rule insertEntry.raw_induct [where P = "\<lambda>hf cnt a t e seed hash off lvl r.
    (t = Trie 0 2 (replicate 2 Uninit) \<longrightarrow>
            (\<exists>b'. r = Inr (Some [0], Trie (2 ^ hash_slice hash off) 2 b', a) \<and>
               length b' = 2 \<and> b' ! 0 = Entry (fst e) (snd e))) \<and>
         \<not> (\<exists>bm cap b old_key old_value.
               never_fails a \<and> t = Trie bm cap b \<and> hash = hash32 hf (fst e) seed \<and>
               off \<le> 25 \<and> 5 dvd off \<and>
               logicalPositionTaken bm (hash_slice hash off) \<and>
               physicalIndex bm (hash_slice hash off) < length b \<and>
               b ! physicalIndex bm (hash_slice hash off) = Entry old_key old_value \<and>
               (\<forall>seed off. off \<le> 25 \<longrightarrow> hash_slice (hash32 hf old_key seed) off =
                   hash_slice (hash32 hf (fst e) seed) off) \<and>
               (\<forall>seed. hash32 hf old_key seed \<noteq> hash32 hf (fst e) seed))", OF _ major],
    goal_cases)
  case (1 ins hf cnt a t e seed hash off lvl r)
  note IH = 1(1) and body = 1(2)
  define slot where "slot = hash_slice hash off"
  have slot32: "slot < 32" unfolding slot_def by (rule hash_slice_less)
  show ?case
  proof (intro conjI impI notI)
    assume t: "t = Trie 0 2 (replicate 2 Uninit)"
    have nt: "\<not> logicalPositionTaken 0 slot" by (simp add: logicalPositionTaken_def)
    have free: "\<not> bit (0 :: u32) slot" by simp
    from insertEntry_in_place [OF slot32 free, of "replicate 2 Uninit" 2 a e "cnt + 1" lvl]
    obtain b' where bi: "BitmapTrie_insertEntry a (Trie 0 2 (replicate 2 Uninit)) slot e
        (cnt + 1) lvl = Inr (Some (physicalIndex 0 slot), Trie (0 OR push_bit slot 1) 2 b', a)"
      and l: "length b' = 2"
      and tk: "take (Suc (popcount 0)) b' =
        take (physicalIndex 0 slot) (replicate 2 Uninit) @ Entry (fst e) (snd e) #
          drop (physicalIndex 0 slot) (take (popcount 0) (replicate 2 Uninit))"
      by (auto simp: popcount_zero)
    have pz: "physicalIndex 0 slot = 0"
      using physicalIndex_le [OF slot32, of 0] by (simp add: popcount_zero)
    from tk l have "b' ! 0 = Entry (fst e) (snd e)"
      by (cases b') (simp_all add: pz popcount_zero)
    moreover from body t nt bi pz
    have "r = Inr (Some [0], Trie (2 ^ slot) 2 b', a)"
      by (simp add: slot_def [symmetric] Let_def push_bit_of_1)
    ultimately show "\<exists>b'. r = Inr (Some [0], Trie (2 ^ hash_slice hash off) 2 b', a) \<and>
               length b' = 2 \<and> b' ! 0 = Entry (fst e) (snd e)"
      using l by (auto simp: slot_def)
  next
    assume "\<exists>bm cap b old_key old_value.
               never_fails a \<and> t = Trie bm cap b \<and> hash = hash32 hf (fst e) seed \<and>
               off \<le> 25 \<and> 5 dvd off \<and>
               logicalPositionTaken bm (hash_slice hash off) \<and>
               physicalIndex bm (hash_slice hash off) < length b \<and>
               b ! physicalIndex bm (hash_slice hash off) = Entry old_key old_value \<and>
               (\<forall>seed off. off \<le> 25 \<longrightarrow> hash_slice (hash32 hf old_key seed) off =
                   hash_slice (hash32 hf (fst e) seed) off) \<and>
               (\<forall>seed. hash32 hf old_key seed \<noteq> hash32 hf (fst e) seed)"
    then obtain bm cap b old_key old_value where nf: "never_fails a"
      and t: "t = Trie bm cap b" and hash: "hash = hash32 hf (fst e) seed"
      and off: "off \<le> 25" "5 dvd off"
      and taken: "logicalPositionTaken bm slot"
      and il: "physicalIndex bm slot < length b"
      and cell: "b ! physicalIndex bm slot = Entry old_key old_value"
      and agree: "\<And>seed off. off \<le> 25 \<Longrightarrow> hash_slice (hash32 hf old_key seed) off =
                   hash_slice (hash32 hf (fst e) seed) off"
      and differ: "\<And>seed. hash32 hf old_key seed \<noteq> hash32 hf (fst e) seed"
      unfolding slot_def by blast
    define i where "i = physicalIndex bm slot"
    from il have ne: "b \<noteq> []" by auto
    from differ have dk: "old_key \<noteq> fst e" by auto
    obtain s' h' o' where adv: "advance hf (fst e) (seed, hash, off) = (s', h', o')"
      by (cases "advance hf (fst e) (seed, hash, off)")
    have h': "h' = hash32 hf (fst e) s'" and o': "o' \<le> 25" "5 dvd o'"
      using adv hash off by (auto simp: advance_def split: if_splits)
    from differ [of s'] h' have nc: "\<not> (\<not> off < 25 \<and> h' = hash32 hf old_key s')" by auto
    define new_trie :: "('a, 'b) node" where "new_trie = Trie 0 2 (replicate 2 Uninit)"
    from BitmapTrie_allocate_never_fails [OF nf, of 2] obtain a1 where
      al: "BitmapTrie_allocate a 2 = (new_trie, a1)" and nf1: "never_fails a1"
      unfolding new_trie_def by auto
    let ?k1 = "\<lambda>r1. case r1 of Inl e \<Rightarrow> Some (Inl e)
                  | Inr (None, t1, a2) \<Rightarrow>
                      Some (Inr (None, Trie bm cap (b[i := Entry old_key old_value]), a2))
                  | Inr (Some replaced_node, t1, a2) \<Rightarrow>
                      Option.bind (ins hf cnt a2 t1 e s' h' o' (lvl + 1))
                        (\<lambda>r2. case r2 of Inl e \<Rightarrow> Some (Inl e)
                           | Inr (None, t2, a3) \<Rightarrow>
                               Some (Inr (None, Trie bm cap (b[i := t2]), a3))
                           | Inr (Some p, t2, a3) \<Rightarrow>
                               Some (Inr (Some (i # p), Trie bm cap (b[i := t2]), a3)))"
    from body [unfolded t node.case Let_def, folded slot_def, folded i_def]
      taken ne il cell dk adv nc al
    have "Option.bind
        (ins hf cnt a1 new_trie (old_key, old_value) s' (hash32 hf old_key s') o' (lvl + 1))
        ?k1 = Some r"
      by (auto simp: i_def [symmetric])
    then obtain r1 where
      r1: "ins hf cnt a1 new_trie (old_key, old_value) s' (hash32 hf old_key s') o'
             (lvl + 1) = Some r1"
      and k1: "?k1 r1 = Some r"
      by (cases "ins hf cnt a1 new_trie (old_key, old_value) s' (hash32 hf old_key s') o'
             (lvl + 1)") auto
    define slot' where "slot' = hash_slice (hash32 hf old_key s') o'"
    have slot'32: "slot' < 32" unfolding slot'_def by (rule hash_slice_less)
    from IH [OF r1, THEN conjunct1] obtain b' where
      r1': "r1 = Inr (Some [0], Trie (2 ^ slot') 2 b', a1)" and l: "length b' = 2"
      and c0: "b' ! 0 = Entry old_key old_value"
      by (auto simp: new_trie_def slot'_def)
    from k1 r1' obtain r2 where
      r2: "ins hf cnt a1 (Trie (2 ^ slot') 2 b') e s' h' o' (lvl + 1) = Some r2"
      by (cases "ins hf cnt a1 (Trie (2 ^ slot') 2 b') e s' h' o' (lvl + 1)") auto
    have same: "hash_slice h' o' = slot'"
      unfolding slot'_def h' using agree [OF o'(1), of s'] by simp
    have "never_fails a1 \<and> Trie (2 ^ slot') 2 b' = Trie (2 ^ slot') 2 b' \<and>
               h' = hash32 hf (fst e) s' \<and> o' \<le> 25 \<and> 5 dvd o' \<and>
               logicalPositionTaken (2 ^ slot') (hash_slice h' o') \<and>
               physicalIndex (2 ^ slot') (hash_slice h' o') < length b' \<and>
               b' ! physicalIndex (2 ^ slot') (hash_slice h' o') = Entry old_key old_value \<and>
               (\<forall>seed off. off \<le> 25 \<longrightarrow> hash_slice (hash32 hf old_key seed) off =
                   hash_slice (hash32 hf (fst e) seed) off) \<and>
               (\<forall>seed. hash32 hf old_key seed \<noteq> hash32 hf (fst e) seed)"
      using nf1 h' o' l c0 agree differ taken_single [OF slot'32]
        physicalIndex_single [OF slot'32]
      by (simp add: same same [unfolded h'])
    then have "\<exists>bm cap b old_key old_value.
               never_fails a1 \<and> Trie (2 ^ slot') 2 b' = Trie bm cap b \<and>
               h' = hash32 hf (fst e) s' \<and> o' \<le> 25 \<and> 5 dvd o' \<and>
               logicalPositionTaken bm (hash_slice h' o') \<and>
               physicalIndex bm (hash_slice h' o') < length b \<and>
               b ! physicalIndex bm (hash_slice h' o') = Entry old_key old_value \<and>
               (\<forall>seed off. off \<le> 25 \<longrightarrow> hash_slice (hash32 hf old_key seed) off =
                   hash_slice (hash32 hf (fst e) seed) off) \<and>
               (\<forall>seed. hash32 hf old_key seed \<noteq> hash32 hf (fst e) seed)"
      by blast
    with IH [OF r2, THEN conjunct2] show False by blast
  qed
qed


lemma high_bit_slices:
  assumes "off \<le> 25" "30 \<le> n"
  shows "hash_slice (seed XOR 2 ^ n) off = hash_slice seed off"
proof -
  have "drop_bit off (seed XOR 2 ^ n) AND 0x1f = drop_bit off seed AND 0x1f"
  proof (rule bit_word_eqI)
    fix m assume "m < LENGTH(32)"
    have m: "(0x1f :: u32) = mask 5" by (simp add: mask_eq_exp_minus_1)
    show "bit (drop_bit off (seed XOR 2 ^ n) AND 0x1f) m = bit (drop_bit off seed AND 0x1f) m"
      unfolding m using assms
      by (auto simp: bit_and_iff bit_mask_iff bit_drop_bit_eq bit_xor_iff bit_exp_iff)
  qed
  then show ?thesis by (simp add: hash_slice_def)
qed

lemma high_bit_differs:
  assumes "n < 32"
  shows "seed XOR 2 ^ n \<noteq> (seed :: u32)"
proof
  assume "seed XOR 2 ^ n = seed"
  then have "bit (seed XOR 2 ^ n) n = bit seed n" by simp
  with assms show False by (simp add: bit_xor_iff bit_exp_iff)
qed

text \<open>
  With the identity hasher the keys 0 and \<open>2^30\<close> are such a pair: after \<open>insert((0, 0))\<close>
  into the default-constructed container, \<open>insert((2^30, 1))\<close> does not return.
\<close>

lemma insert_diverges:
  "insert_all IdentityFunction new_hamt [(0, 0)] =
     Some (Inr \<lparr>h_count = 1, h_root = Trie 8192 2 [Entry 0 0, Uninit], h_seed = default_seed,
                h_allocator = []\<rparr>) \<and>
   insert_hamt IdentityFunction
     \<lparr>h_count = 1, h_root = Trie 8192 2 [Entry 0 (0::int), Uninit], h_seed = default_seed,
      h_allocator = []\<rparr> (0x40000000, 1) = None"
proof -
  let ?h = "\<lparr>h_count = 1, h_root = Trie 8192 2 [Entry 0 (0::int), Uninit],
    h_seed = default_seed, h_allocator = []\<rparr> :: (u64, int) hamt"
  let ?hash = "hash32 IdentityFunction (0x40000000 :: u64) default_seed"
  have h0: "hash32 IdentityFunction (0 :: u64) seed = seed" for seed
    by (simp add: hash32_xor IdentityFunction_def)
  have h1: "hash32 IdentityFunction (0x40000000 :: u64) seed = seed XOR 0x40000000" for seed
    by (simp add: hash32_xor IdentityFunction_def)
  have agree: "hash_slice (seed XOR 0x40000000) off = hash_slice seed off"
    if "off \<le> 25" for seed off
    using high_bit_slices [OF that, of 30 seed] by simp
  have differ: "seed \<noteq> seed XOR 0x40000000" for seed :: u32
    using high_bit_differs [of 30 seed] by simp
  have first: "insert_all IdentityFunction new_hamt [(0, 0)] = Some (Inr ?h)"
    by code_simp
  have cell: "logicalPositionTaken 8192 (hash_slice ?hash 0)"
    "physicalIndex 8192 (hash_slice ?hash 0) < length [Entry (0::u64) (0::int), Uninit]"
    "[Entry (0::u64) (0::int), Uninit] ! physicalIndex 8192 (hash_slice ?hash 0) = Entry 0 0"
    by code_simp+
  have "insertEntry IdentityFunction 1 [] (Trie 8192 2 [Entry (0::u64) (0::int), Uninit])
      (0x40000000, 1) default_seed ?hash 0 0 = None"
  proof (rule ccontr)
    assume "insertEntry IdentityFunction 1 [] (Trie 8192 2 [Entry (0::u64) (0::int), Uninit])
      (0x40000000, 1) default_seed ?hash 0 0 \<noteq> None"
    then obtain r where "insertEntry IdentityFunction 1 []
      (Trie 8192 2 [Entry (0::u64) (0::int), Uninit])
      (0x40000000, 1) default_seed ?hash 0 0 = Some r" by auto
    from insertEntry_diverges_aux [OF this, THEN conjunct2] cell
    show False
      by (auto simp: never_fails_def h0 h1 agree differ)
  qed
  then have "insert_hamt IdentityFunction ?h (0x40000000, 1) = None"
    by (simp add: insert_hamt_def)
  with first show ?thesis by simp
qed

end
